theory Spec2Isabelle
  imports Complex_Main "HOL-Library.Word"
begin

unbundle bit_operations_syntax

section \<open>Bytes, strings and runes\<close>

text \<open>
  A Go \<^verbatim>\<open>string\<close> and a Go \<^verbatim>\<open>[]byte\<close> are both sequences of bytes. A \<^verbatim>\<open>rune\<close> is
  an \<^verbatim>\<open>int32\<close>; every rune computed by the logger lies in \<open>[0, 0x10FFFF]\<close>, far from the
  ends of \<^verbatim>\<open>int32\<close>, so it is modelled as an unbounded \<open>int\<close>.
\<close>

type_synonym byte = "8 word"
type_synonym gostring = "byte list"
type_synonym rune = int

definition bytes :: "string \<Rightarrow> gostring" where
  "bytes cs = map of_char cs"

definition dquote :: byte where
  "dquote = 0x22"

definition bslash :: byte where
  "bslash = 0x5C"

section \<open>Package \<^verbatim>\<open>unicode/utf8\<close>\<close>

definition RuneError :: rune where
  "RuneError = 0xFFFD"

definition RuneSelf :: rune where
  "RuneSelf = 0x80"

definition MaxRune :: rune where
  "MaxRune = 0x10FFFF"

definition surrogateMin :: rune where
  "surrogateMin = 0xD800"

definition surrogateMax :: rune where
  "surrogateMax = 0xDFFF"

definition locb :: byte where
  "locb = 0x80"

definition hicb :: byte where
  "hicb = 0xBF"

text \<open>
  The table \<^verbatim>\<open>first[256]\<close>: information about the first byte of an encoding. \<open>0xF0\<close>
  (\<^verbatim>\<open>as\<close>) marks ASCII, \<open>0xF1\<close> (\<^verbatim>\<open>xx\<close>) an invalid first byte; otherwise the low three
  bits are the size and the high nibble indexes \<^verbatim>\<open>acceptRanges\<close>.
\<close>

definition utf8_first :: "byte \<Rightarrow> byte" where
  "utf8_first b =
     (if b < 0x80 then 0xF0
      else if b < 0xC2 then 0xF1
      else if b < 0xE0 then 0x02
      else if b = 0xE0 then 0x13
      else if b < 0xED then 0x03
      else if b = 0xED then 0x23
      else if b < 0xF0 then 0x03
      else if b = 0xF0 then 0x34
      else if b < 0xF4 then 0x04
      else if b = 0xF4 then 0x44
      else 0xF1)"

text \<open>The table \<^verbatim>\<open>acceptRanges\<close>: the range \<open>(lo, hi)\<close> allowed for the second byte.\<close>

definition acceptRanges :: "byte \<Rightarrow> byte \<times> byte" where
  "acceptRanges i =
     (if i = 0 then (locb, hicb)
      else if i = 1 then (0xA0, hicb)
      else if i = 2 then (locb, 0x9F)
      else if i = 3 then (0x90, hicb)
      else if i = 4 then (locb, 0x8F)
      else (0, 0))"

text \<open>
  \<^verbatim>\<open>utf8.DecodeRuneInString\<close>: the first rune of \<open>s\<close> and its width in bytes;
  \<open>(RuneError, 0)\<close> on the empty string and \<open>(RuneError, 1)\<close> on an invalid encoding.
  The branch-free mask \<^verbatim>\<open>rune(x) << 31 >> 31\<close> is computed on 32 bits as in the source.
\<close>

definition DecodeRuneInString :: "gostring \<Rightarrow> rune \<times> nat" where
  "DecodeRuneInString s =
     (let n = length s in
      if n < 1 then (RuneError, 0)
      else
        let s0 = s ! 0; x = utf8_first s0 in
        if x \<ge> 0xF0 then
          (let mask = sint (signed_drop_bit 31 (push_bit 31 (ucast x :: 32 word)))
           in ((uint s0 AND NOT mask) OR (RuneError AND mask), 1))
        else
          let sz = unat (x AND 7); accept = acceptRanges (drop_bit 4 x) in
          if n < sz then (RuneError, 1)
          else
            let s1 = s ! 1 in
            if s1 < fst accept \<or> snd accept < s1 then (RuneError, 1)
            else if sz \<le> 2 then
              (push_bit 6 (uint (s0 AND 0x1F)) OR uint (s1 AND 0x3F), 2)
            else
              let s2 = s ! 2 in
              if s2 < locb \<or> hicb < s2 then (RuneError, 1)
              else if sz \<le> 3 then
                (push_bit 12 (uint (s0 AND 0x0F)) OR push_bit 6 (uint (s1 AND 0x3F))
                   OR uint (s2 AND 0x3F), 3)
              else
                let s3 = s ! 3 in
                if s3 < locb \<or> hicb < s3 then (RuneError, 1)
                else
                  (push_bit 18 (uint (s0 AND 0x07)) OR push_bit 12 (uint (s1 AND 0x3F))
                     OR push_bit 6 (uint (s2 AND 0x3F)) OR uint (s3 AND 0x3F), 4))"

text \<open>
  \<^verbatim>\<open>utf8.EncodeRune\<close>: the bytes written for \<open>r\<close> (the slice \<^verbatim>\<open>runeTmp[:n]\<close>). The switch
  is on \<^verbatim>\<open>uint32(r)\<close>; \<^verbatim>\<open>byte(e)\<close> truncates to eight bits.
\<close>

definition EncodeRune :: "rune \<Rightarrow> gostring" where
  "EncodeRune r =
     (let i = take_bit 32 r in
      if i \<le> 0x7F then [word_of_int r]
      else if i \<le> 0x7FF then
        [0xC0 OR word_of_int (drop_bit 6 r), 0x80 OR (word_of_int r AND 0x3F)]
      else
        let r' = (if i > MaxRune \<or> (surrogateMin \<le> i \<and> i \<le> surrogateMax)
                  then RuneError else r) in
        if i > MaxRune \<or> (surrogateMin \<le> i \<and> i \<le> surrogateMax) \<or> i \<le> 0xFFFF then
          [0xE0 OR word_of_int (drop_bit 12 r'),
           0x80 OR (word_of_int (drop_bit 6 r') AND 0x3F),
           0x80 OR (word_of_int r' AND 0x3F)]
        else
          [0xF0 OR word_of_int (drop_bit 18 r),
           0x80 OR (word_of_int (drop_bit 12 r) AND 0x3F),
           0x80 OR (word_of_int (drop_bit 6 r) AND 0x3F),
           0x80 OR (word_of_int r AND 0x3F)])"

section \<open>Package \<^verbatim>\<open>strconv\<close>: printable runes\<close>

text \<open>
  \<^verbatim>\<open>strconv.IsPrint\<close> answers for Latin-1 by an explicit test and for every other rune by
  a binary search in generated Unicode tables. The tables are not part of the logger;
  their verdict is the parameter \<open>tab\<close>.
\<close>

definition IsPrint :: "(rune \<Rightarrow> bool) \<Rightarrow> rune \<Rightarrow> bool" where
  "IsPrint tab r =
     (if r \<le> 0xFF then
        (if 0x20 \<le> r \<and> r \<le> 0x7E then True
         else if 0xA1 \<le> r \<and> r \<le> 0xFF then r \<noteq> 0xAD
         else False)
      else tab r)"

section \<open>The escaping primitive \<^verbatim>\<open>appendQuoted\<close>\<close>

definition lowerhex :: gostring where
  "lowerhex = bytes ''0123456789abcdef''"

text \<open>
  Lines 63 to 67 of the loop body: the rune at the head of a non-empty \<open>s\<close> and its width.
\<close>

definition headRune :: "gostring \<Rightarrow> rune \<times> nat" where
  "headRune s =
     (let r = uint (s ! 0) in
      if r \<ge> RuneSelf then DecodeRuneInString s else (r, 1))"

text \<open>The inner loops \<^verbatim>\<open>for s := k; s >= 0; s -= 4\<close>, for \<open>k = 12\<close> and \<open>k = 28\<close>.\<close>

definition hexDigits :: "nat list \<Rightarrow> rune \<Rightarrow> gostring" where
  "hexDigits shifts r = map (\<lambda>sh. lowerhex ! nat (drop_bit sh r AND 0xF)) shifts"

text \<open>
  Lines 68 to 119: the bytes one iteration appends to \<open>buf\<close>, from the rune \<open>r\<close>, its
  \<open>width\<close> and the first byte \<open>s0\<close> of the rest of the string.
\<close>

definition escapeRune :: "(rune \<Rightarrow> bool) \<Rightarrow> rune \<Rightarrow> nat \<Rightarrow> byte \<Rightarrow> gostring" where
  "escapeRune tab r width s0 =
     (if width = 1 \<and> r = RuneError then
        [bslash, of_char CHR ''x'', lowerhex ! unat (drop_bit 4 s0), lowerhex ! unat (s0 AND 0xF)]
      else if r = uint dquote \<or> r = uint bslash then [bslash, word_of_int r]
      else if IsPrint tab r then EncodeRune r
      else if r = 7 then [bslash, of_char CHR ''a'']
      else if r = 8 then [bslash, of_char CHR ''b'']
      else if r = 12 then [bslash, of_char CHR ''f'']
      else if r = 10 then [bslash, of_char CHR ''n'']
      else if r = 13 then [bslash, of_char CHR ''r'']
      else if r = 9 then [bslash, of_char CHR ''t'']
      else if r = 11 then [bslash, of_char CHR ''v'']
      else if r < 0x20 then
        [bslash, of_char CHR ''x'', lowerhex ! unat (drop_bit 4 s0), lowerhex ! unat (s0 AND 0xF)]
      else if r > MaxRune then bslash # of_char CHR ''u'' # hexDigits [12, 8, 4, 0] 0xFFFD
      else if r < 0x10000 then bslash # of_char CHR ''u'' # hexDigits [12, 8, 4, 0] r
      else bslash # of_char CHR ''U'' # hexDigits [28, 24, 20, 16, 12, 8, 4, 0] r)"

text \<open>One iteration of the loop of \<^verbatim>\<open>appendQuoted\<close> on the state \<open>(buf, s)\<close>, \<open>s\<close> non-empty.\<close>

definition quoteStep :: "(rune \<Rightarrow> bool) \<Rightarrow> gostring \<times> gostring \<Rightarrow> gostring \<times> gostring" where
  "quoteStep tab st =
     (let buf = fst st; s = snd st; r = fst (headRune s); width = snd (headRune s)
      in (buf @ escapeRune tab r width (s ! 0), drop width s))"

section \<open>Facts about the UTF-8 primitives\<close>


lemma hi_bits: "c * 2 ^ k \<le> unat b \<Longrightarrow> unat b < (c + 1) * 2 ^ k \<Longrightarrow> drop_bit k (b::byte) = word_of_nat c"
proof -
  assume a: "c * 2 ^ k \<le> unat b" "unat b < (c + 1) * 2 ^ k"
  have "unat b div 2 ^ k = c"
    by (rule div_nat_eqI) (use a in \<open>simp_all add: mult.commute\<close>)
  moreover have "unat (drop_bit k b) = drop_bit k (unat b)" by (rule unat_drop_bit_eq)
  moreover have "drop_bit k (unat b) = unat b div 2 ^ k" by (rule drop_bit_eq_div)
  ultimately have "unat (drop_bit k b) = c" by simp
  then have "word_of_nat (unat (drop_bit k b)) = (word_of_nat c :: byte)" by simp
  then show ?thesis by simp
qed

lemma split_byte: "push_bit n (drop_bit n a) OR take_bit n a = (a::byte)"
  by (rule bit_eqI) (auto simp: bit_simps)

lemma m6: "(0x3F::byte) = mask 6" "(0x1F::byte) = mask 5" "(0x0F::byte) = mask 4" "(0x07::byte) = mask 3"
  by (simp_all add: mask_eq_exp_minus_1)

lemma cont_hi: "locb \<le> b \<Longrightarrow> b \<le> hicb \<Longrightarrow> drop_bit 6 b = 2"
  using hi_bits [of 2 6 b] unfolding locb_def hicb_def
  by (simp add: word_le_nat_alt)

lemma cont_byte: "locb \<le> b \<Longrightarrow> b \<le> hicb \<Longrightarrow> 0x80 OR (b AND 0x3F) = (b::byte)"
  using split_byte [of 6 b] cont_hi [of b] by (simp add: m6 take_bit_eq_mask)

lemma utf8_first_cases:
  "utf8_first b \<in> {0xF0, 0xF1, 0x02, 0x13, 0x03, 0x23, 0x34, 0x04, 0x44}"
  by (simp add: utf8_first_def)



lemma dec_as: "s \<noteq> [] \<Longrightarrow> utf8_first (s ! 0) = 0xF0 \<Longrightarrow> DecodeRuneInString s = (uint (s ! 0), 1)"
  by (simp add: DecodeRuneInString_def Let_def)

lemma dec_xx: "s \<noteq> [] \<Longrightarrow> utf8_first (s ! 0) = 0xF1 \<Longrightarrow> DecodeRuneInString s = (RuneError, 1)"
  by (simp add: DecodeRuneInString_def Let_def)

lemma dec_2: "s \<noteq> [] \<Longrightarrow> utf8_first (s ! 0) = 0x02 \<Longrightarrow> DecodeRuneInString s =
   (if length s < 2 \<or> s ! 1 < locb \<or> hicb < s ! 1 then (RuneError, 1)
    else (push_bit 6 (uint (s ! 0 AND 0x1F)) OR uint (s ! 1 AND 0x3F), 2))"
  by (simp add: DecodeRuneInString_def Let_def acceptRanges_def)

lemma dec_3_gen:
  assumes "s \<noteq> []" "utf8_first (s ! 0) = x" "\<not> 0xF0 \<le> x" "unat (x AND 7) = 3"
    "acceptRanges (drop_bit 4 x) = (lo, hi)"
  shows "DecodeRuneInString s =
   (if length s < 3 \<or> s ! 1 < lo \<or> hi < s ! 1 \<or> s ! 2 < locb \<or> hicb < s ! 2 then (RuneError, 1)
    else (push_bit 12 (uint (s ! 0 AND 0x0F)) OR push_bit 6 (uint (s ! 1 AND 0x3F))
                   OR uint (s ! 2 AND 0x3F), 3))"
  using assms by (simp add: DecodeRuneInString_def Let_def)

lemma dec_4_gen:
  assumes "s \<noteq> []" "utf8_first (s ! 0) = x" "\<not> 0xF0 \<le> x" "unat (x AND 7) = 4"
    "acceptRanges (drop_bit 4 x) = (lo, hi)"
  shows "DecodeRuneInString s =
   (if length s < 4 \<or> s ! 1 < lo \<or> hi < s ! 1 \<or> s ! 2 < locb \<or> hicb < s ! 2
       \<or> s ! 3 < locb \<or> hicb < s ! 3 then (RuneError, 1)
    else (push_bit 18 (uint (s ! 0 AND 0x07)) OR push_bit 12 (uint (s ! 1 AND 0x3F))
                     OR push_bit 6 (uint (s ! 2 AND 0x3F)) OR uint (s ! 3 AND 0x3F), 4))"
  using assms by (simp add: DecodeRuneInString_def Let_def)

lemma f2: "drop_bit 6 (push_bit 6 (take_bit 5 a) OR take_bit 6 (b::int)) = take_bit 5 a"
  "take_bit 6 (push_bit 6 (take_bit 5 a) OR take_bit 6 (b::int)) = take_bit 6 b"
  by (simp_all add: drop_bit_push_bit take_bit_push_bit drop_bit_take_bit)

lemma f3: "drop_bit 12 (push_bit 12 (take_bit 4 a) OR push_bit 6 (take_bit 6 b) OR take_bit 6 (c::int)) = take_bit 4 a"
  "take_bit 6 (drop_bit 6 (push_bit 12 (take_bit 4 a) OR push_bit 6 (take_bit 6 b) OR take_bit 6 (c::int))) = take_bit 6 b"
  "take_bit 6 (push_bit 12 (take_bit 4 a) OR push_bit 6 (take_bit 6 b) OR take_bit 6 (c::int)) = take_bit 6 c"
  by (simp_all add: drop_bit_push_bit take_bit_push_bit drop_bit_take_bit)

lemma f4: "drop_bit 18 (push_bit 18 (take_bit 3 a) OR push_bit 12 (take_bit 6 b) OR push_bit 6 (take_bit 6 c) OR take_bit 6 (d::int)) = take_bit 3 a"
  "take_bit 6 (drop_bit 12 (push_bit 18 (take_bit 3 a) OR push_bit 12 (take_bit 6 b) OR push_bit 6 (take_bit 6 c) OR take_bit 6 (d::int))) = take_bit 6 b"
  "take_bit 6 (drop_bit 6 (push_bit 18 (take_bit 3 a) OR push_bit 12 (take_bit 6 b) OR push_bit 6 (take_bit 6 c) OR take_bit 6 (d::int))) = take_bit 6 c"
  "take_bit 6 (push_bit 18 (take_bit 3 a) OR push_bit 12 (take_bit 6 b) OR push_bit 6 (take_bit 6 c) OR take_bit 6 (d::int)) = take_bit 6 d"
  by (simp_all add: drop_bit_push_bit take_bit_push_bit drop_bit_take_bit)

lemma uint_and_mask: "uint ((b::byte) AND mask n) = take_bit n (uint b)"
  by (simp add: take_bit_eq_mask [symmetric] unsigned_take_bit_eq)

lemma w_and_mask: "n \<le> 8 \<Longrightarrow> (word_of_int k :: byte) AND mask n = word_of_int (take_bit n k)"
  by (rule bit_word_eqI) (auto simp: bit_simps)

lemma w_take: "(word_of_int (take_bit n (uint b)) :: byte) = take_bit n b"
  by (rule bit_word_eqI) (auto simp: bit_simps)


lemma or_plus: "push_bit n a OR take_bit n b = push_bit n a + take_bit n (b::int)"
  by (rule disjunctive_add_eq_or [symmetric]) (rule bit_eqI, simp add: bit_simps)

lemma bit7: "bit (0x80 OR x :: byte) 7" "bit (0xC0 OR x :: byte) 7" "bit (0xE0 OR x :: byte) 7" "bit (0xF0 OR x :: byte) 7"
  by (simp_all add: bit_simps)

lemma nb: "bit (y::byte) 7 \<Longrightarrow> y \<noteq> 0x22 \<and> y \<noteq> 0x5C"
  by auto



lemma v2: "push_bit 6 (take_bit 5 a) OR take_bit 6 (b::int) = (a mod 32) * 64 + b mod 64"
  by (simp only: or_plus) (simp add: push_bit_eq_mult take_bit_eq_mod)

lemma v3: "push_bit 12 (take_bit 4 a) OR push_bit 6 (take_bit 6 b) OR take_bit 6 (c::int)
   = (a mod 16) * 4096 + (b mod 64) * 64 + c mod 64"
proof -
  have "push_bit 12 (take_bit 4 a) OR push_bit 6 (take_bit 6 b) OR take_bit 6 c
      = push_bit 6 (push_bit 6 (take_bit 4 a) OR take_bit 6 b) OR take_bit 6 c"
    by (simp add: or.assoc)
  also have "\<dots> = push_bit 6 (push_bit 6 (take_bit 4 a) + take_bit 6 b) + take_bit 6 c"
    by (simp only: or_plus)
  also have "\<dots> = (a mod 16) * 4096 + (b mod 64) * 64 + c mod 64"
    by (simp add: push_bit_eq_mult take_bit_eq_mod)
  finally show ?thesis .
qed

lemma v4: "push_bit 18 (take_bit 3 a) OR push_bit 12 (take_bit 6 b) OR push_bit 6 (take_bit 6 c) OR take_bit 6 (d::int)
   = (a mod 8) * 262144 + (b mod 64) * 4096 + (c mod 64) * 64 + d mod 64"
proof -
  have "push_bit 18 (take_bit 3 a) OR push_bit 12 (take_bit 6 b) OR push_bit 6 (take_bit 6 c) OR take_bit 6 d
     = push_bit 6 (push_bit 6 (push_bit 6 (take_bit 3 a) OR take_bit 6 b) OR take_bit 6 c) OR take_bit 6 d"
    by (simp add: or.assoc)
  also have "\<dots> = push_bit 6 (push_bit 6 (push_bit 6 (take_bit 3 a) + take_bit 6 b) + take_bit 6 c) + take_bit 6 d"
    by (simp only: or_plus)
  also have "\<dots> = (a mod 8) * 262144 + (b mod 64) * 4096 + (c mod 64) * 64 + d mod 64"
    by (simp add: push_bit_eq_mult take_bit_eq_mod)
  finally show ?thesis .
qed

lemma first_iff:
  "utf8_first b = 0xF0 \<longleftrightarrow> uint b < 0x80"
  "utf8_first b = 0x02 \<longleftrightarrow> 0xC2 \<le> uint b \<and> uint b \<le> 0xDF"
  "utf8_first b = 0x13 \<longleftrightarrow> uint b = 0xE0"
  "utf8_first b = 0x03 \<longleftrightarrow> (0xE1 \<le> uint b \<and> uint b \<le> 0xEC) \<or> (0xEE \<le> uint b \<and> uint b \<le> 0xEF)"
  "utf8_first b = 0x23 \<longleftrightarrow> uint b = 0xED"
  "utf8_first b = 0x34 \<longleftrightarrow> uint b = 0xF0"
  "utf8_first b = 0x04 \<longleftrightarrow> 0xF1 \<le> uint b \<and> uint b \<le> 0xF3"
  "utf8_first b = 0x44 \<longleftrightarrow> uint b = 0xF4"
  by (auto simp: utf8_first_def word_less_def word_le_def word_uint_eq_iff)





lemma dec_3_width: 
  assumes "s \<noteq> []" "utf8_first (s ! 0) = x" "x = 0x03 \<or> x = 0x13 \<or> x = 0x23"
  shows "snd (DecodeRuneInString s) = 1 \<or> (snd (DecodeRuneInString s) = 3 \<and> 3 \<le> length s)"
proof -
  obtain lo hi where a: "acceptRanges (drop_bit 4 x) = (lo, hi)" by (cases "acceptRanges (drop_bit 4 x)")
  have "\<not> 0xF0 \<le> x" "unat (x AND 7) = 3" using assms(3) by auto
  from dec_3_gen [OF assms(1,2) this a] show ?thesis by simp
qed

lemma dec_4_width: 
  assumes "s \<noteq> []" "utf8_first (s ! 0) = x" "x = 0x04 \<or> x = 0x34 \<or> x = 0x44"
  shows "snd (DecodeRuneInString s) = 1 \<or> (snd (DecodeRuneInString s) = 4 \<and> 4 \<le> length s)"
proof -
  obtain lo hi where a: "acceptRanges (drop_bit 4 x) = (lo, hi)" by (cases "acceptRanges (drop_bit 4 x)")
  have "\<not> 0xF0 \<le> x" "unat (x AND 7) = 4" using assms(3) by auto
  from dec_4_gen [OF assms(1,2) this a] show ?thesis by simp
qed

lemma DecodeRuneInString_width:
  assumes "s \<noteq> []"
  shows "1 \<le> snd (DecodeRuneInString s) \<and> snd (DecodeRuneInString s) \<le> length s"
proof -
  have n: "1 \<le> length s" using assms by (cases s) auto
  consider "utf8_first (s ! 0) = 0xF0" | "utf8_first (s ! 0) = 0xF1" | "utf8_first (s ! 0) = 0x02"
    | "utf8_first (s ! 0) = 0x03 \<or> utf8_first (s ! 0) = 0x13 \<or> utf8_first (s ! 0) = 0x23"
    | "utf8_first (s ! 0) = 0x04 \<or> utf8_first (s ! 0) = 0x34 \<or> utf8_first (s ! 0) = 0x44"
    using utf8_first_cases [of "s ! 0"] by auto
  then show ?thesis
  proof cases
    case 1 then show ?thesis using n dec_as [OF assms] by simp
  next
    case 2 then show ?thesis using n dec_xx [OF assms] by simp
  next
    case 3 then show ?thesis using n dec_2 [OF assms] by simp
  next
    case 4 then show ?thesis using n dec_3_width [OF assms refl] by auto
  next
    case 5 then show ?thesis using n dec_4_width [OF assms refl] by auto
  qed
qed

lemma headRune_width:
  "s \<noteq> [] \<Longrightarrow> 1 \<le> snd (headRune s) \<and> snd (headRune s) \<le> length s"
  using DecodeRuneInString_width [of s] by (cases s) (simp_all add: headRune_def Let_def)

lemma quoteStep_shorter: "s \<noteq> [] \<Longrightarrow> length (snd (quoteStep tab (buf, s))) < length s"
  using headRune_width [of s] by (cases s) (simp_all add: quoteStep_def Let_def)

text \<open>
  \<^verbatim>\<open>appendQuoted\<close>: the loop \<^verbatim>\<open>for width := 0; len(s) > 0; s = s[width:]\<close>. Every
  \<^verbatim>\<open>continue\<close> and the end of the body lead to the post statement, so one iteration is
  \<open>quoteStep\<close>.
\<close>

function appendQuoted :: "(rune \<Rightarrow> bool) \<Rightarrow> gostring \<Rightarrow> gostring \<Rightarrow> gostring" where
  "appendQuoted tab buf s =
     (if length s > 0 then
        appendQuoted tab (fst (quoteStep tab (buf, s))) (snd (quoteStep tab (buf, s)))
      else buf)"
  by pat_completeness auto
termination
  by (relation "measure (\<lambda>(tab, buf, s). length s)") (simp_all add: quoteStep_shorter case_prod_unfold)


declare appendQuoted.simps [simp del]

lemma appendQuoted_Nil: "appendQuoted tab buf [] = buf"
  by (simp add: appendQuoted.simps)


lemma headRune_ascii: "uint c < 0x80 \<Longrightarrow> headRune (c # s) = (uint c, 1)"
  by (simp add: headRune_def RuneSelf_def)

lemma appendQuoted_step:
  "s \<noteq> [] \<Longrightarrow> appendQuoted tab buf s =
     appendQuoted tab (buf @ escapeRune tab (fst (headRune s)) (snd (headRune s)) (s ! 0)) (drop (snd (headRune s)) s)"
  by (subst appendQuoted.simps) (simp add: quoteStep_def Let_def)

lemma appendQuoted_print_ascii:
  "0x20 \<le> uint c \<Longrightarrow> uint c \<le> 0x7E \<Longrightarrow> c \<noteq> dquote \<Longrightarrow> c \<noteq> bslash \<Longrightarrow>
   appendQuoted tab buf (c # s) = appendQuoted tab (buf @ [c]) s"
  by (subst appendQuoted_step)
     (simp_all add: headRune_ascii escapeRune_def RuneError_def IsPrint_def EncodeRune_def
        word_uint_eq_iff take_bit_eq_mod)




section \<open>Standard-library calls of the line builder\<close>

subsection \<open>\<^verbatim>\<open>strconv.Itoa\<close>\<close>

definition digit :: "nat \<Rightarrow> byte" where
  "digit d = of_nat (48 + d)"

fun digitsNat :: "nat \<Rightarrow> gostring" where
  "digitsNat n = (if n < 10 then [digit n] else digitsNat (n div 10) @ [digit (n mod 10)])"

declare digitsNat.simps [simp del]

definition Itoa :: "int \<Rightarrow> gostring" where
  "Itoa i = (if i < 0 then bytes ''-'' @ digitsNat (nat (- i)) else digitsNat (nat i))"

subsection \<open>\<^verbatim>\<open>net.SplitHostPort\<close>\<close>

datatype AddrError = MissingPort | TooManyColons | MissingBracket | UnexpectedOpen | UnexpectedClose

fun IndexByteString :: "gostring \<Rightarrow> byte \<Rightarrow> int" where
  "IndexByteString [] c = - 1"
| "IndexByteString (x # xs) c =
     (if x = c then 0
      else let i = IndexByteString xs c in if i < 0 then - 1 else i + 1)"

definition last_index :: "gostring \<Rightarrow> byte \<Rightarrow> int" where
  "last_index s b =
     (let i = IndexByteString (rev s) b in if i < 0 then - 1 else int (length s) - 1 - i)"

definition SplitHostPort :: "gostring \<Rightarrow> AddrError + gostring \<times> gostring" where
  "SplitHostPort hostport =
     (let i = last_index hostport (of_char CHR '':'');
          finish = (\<lambda>host j k.
            if IndexByteString (drop j hostport) (of_char CHR ''['') \<ge> 0 then Inl UnexpectedOpen
            else if IndexByteString (drop k hostport) (of_char CHR '']'') \<ge> 0 then Inl UnexpectedClose
            else Inr (host, drop (nat (i + 1)) hostport))
      in
      if i < 0 then Inl MissingPort
      else if hostport ! 0 = of_char CHR ''['' then
        (let end = IndexByteString hostport (of_char CHR '']'') in
         if end < 0 then Inl MissingBracket
         else if end + 1 = int (length hostport) then Inl MissingPort
         else if end + 1 = i then
           finish (take (nat end - 1) (drop 1 hostport)) 1 (nat (end + 1))
         else if hostport ! nat (end + 1) = of_char CHR '':'' then Inl TooManyColons
         else Inl MissingPort)
      else
        (let host = take (nat i) hostport in
         if IndexByteString host (of_char CHR '':'') \<ge> 0 then Inl TooManyColons
         else finish host 0 0))"


subsection \<open>\<^verbatim>\<open>time.Time.Format\<close> with the layout \<^verbatim>\<open>02/Jan/2006:15:04:05 -0700\<close>\<close>

text \<open>
  A \<^verbatim>\<open>time.Time\<close> is modelled by what \<^verbatim>\<open>Format\<close> reads from it: the civil date and clock
  in the time's location and the zone offset in seconds east of UTC.
\<close>

datatype Month = January | February | March | April | May | June | July | August
  | September | October | November | December

record Time =
  Year :: int
  Month :: Month
  Day :: int
  Hour :: int
  Minute :: int
  Second :: int
  Offset :: int

fun MonthString :: "Month \<Rightarrow> string" where
  "MonthString January = ''January''"
| "MonthString February = ''February''"
| "MonthString March = ''March''"
| "MonthString April = ''April''"
| "MonthString May = ''May''"
| "MonthString June = ''June''"
| "MonthString July = ''July''"
| "MonthString August = ''August''"
| "MonthString September = ''September''"
| "MonthString October = ''October''"
| "MonthString November = ''November''"
| "MonthString December = ''December''"

text \<open>\<^verbatim>\<open>appendInt\<close> of package \<^verbatim>\<open>time\<close>: decimal, zero-padded to \<open>width\<close>, sign first.\<close>

definition appendInt :: "int \<Rightarrow> nat \<Rightarrow> gostring" where
  "appendInt x width =
     (let ds = digitsNat (nat \<bar>x\<bar>) in
      (if x < 0 then bytes ''-'' else []) @ replicate (width - length ds) (of_char CHR ''0'') @ ds)"

text \<open>Go's integer division and remainder truncate towards zero.\<close>

definition quo :: "int \<Rightarrow> int \<Rightarrow> int" where
  "quo a b = sgn a * sgn b * (\<bar>a\<bar> div \<bar>b\<bar>)"

definition rem :: "int \<Rightarrow> int \<Rightarrow> int" where
  "rem a b = a - b * quo a b"

definition FormatTime :: "Time \<Rightarrow> gostring" where
  "FormatTime t =
     (let zone = quo (Offset t) 60;
          sign = (if zone < 0 then bytes ''-'' else bytes ''+'');
          zone' = (if zone < 0 then - zone else zone)
      in appendInt (Day t) 2 @ bytes ''/'' @ bytes (take 3 (MonthString (Month t))) @ bytes ''/''
         @ appendInt (Year t) 4 @ bytes '':'' @ appendInt (Hour t) 2 @ bytes '':''
         @ appendInt (Minute t) 2 @ bytes '':'' @ appendInt (Second t) 2 @ bytes '' ''
         @ sign @ appendInt (quo zone' 60) 2 @ appendInt (rem zone' 60) 2)"

subsection \<open>\<^verbatim>\<open>float64\<close> arithmetic and \<^verbatim>\<open>fmt.Sprintf("%.3fms", ms)\<close>\<close>

text \<open>
  A finite \<^verbatim>\<open>float64\<close> is modelled by the rational it denotes. A conversion or a division
  gives the exact result rounded to 53 significant bits, ties to even (IEEE 754 binary64,
  round to nearest). Exponent limits are left out: the values of \<^verbatim>\<open>prettyDuration\<close>, an
  \<^verbatim>\<open>int64\<close> and its quotient by \<open>10\<^sup>6\<close>, are zero or in the normal range.
\<close>

type_synonym float64 = rat

definition roundHalfEven :: "rat \<Rightarrow> int" where
  "roundHalfEven x =
     (let f = \<lfloor>x\<rfloor>; d = x - of_int f in
      if d < 1 / 2 then f else if 1 / 2 < d then f + 1 else if even f then f else f + 1)"

fun bitLength :: "nat \<Rightarrow> nat" where
  "bitLength n = (if n = 0 then 0 else Suc (bitLength (n div 2)))"

declare bitLength.simps [simp del]

definition pow2 :: "int \<Rightarrow> rat" where
  "pow2 e = (if 0 \<le> e then 2 ^ nat e else 1 / 2 ^ nat (- e))"

text \<open>The exponent \<open>e\<close> with \<open>2\<^sup>e \<le> x < 2\<^sup>e\<^sup>+\<^sup>1\<close>, for \<open>x > 0\<close>.\<close>

definition floorLog2 :: "rat \<Rightarrow> int" where
  "floorLog2 x =
     (if 1 \<le> x then int (bitLength (nat \<lfloor>x\<rfloor>)) - 1
      else - int (bitLength (nat (\<lceil>1 / x\<rceil> - 1))))"

definition roundFloat64 :: "rat \<Rightarrow> float64" where
  "roundFloat64 x =
     (if x = 0 then 0
      else let e = floorLog2 \<bar>x\<bar> - 52 in of_int (roundHalfEven (x / pow2 e)) * pow2 e)"

definition float64_of_int :: "int \<Rightarrow> float64" where
  "float64_of_int n = roundFloat64 (of_int n)"

definition float64_div :: "float64 \<Rightarrow> float64 \<Rightarrow> float64" where
  "float64_div x y = roundFloat64 (x / y)"

text \<open>
  The verb \<^verbatim>\<open>%.3f\<close>: the value rounded to three decimals, ties to even on the exact
  value, printed with its sign, at least one integer digit and exactly three decimals.
\<close>

definition formatFixed3 :: "float64 \<Rightarrow> gostring" where
  "formatFixed3 x =
     (let k = nat (roundHalfEven (\<bar>x\<bar> * 1000)) in
      (if x < 0 then bytes ''-'' else []) @ digitsNat (k div 1000) @ bytes ''.''
        @ [digit (k div 100 mod 10), digit (k div 10 mod 10), digit (k mod 10)])"


subsection \<open>Requests\<close>

text \<open>
  The fields of \<^verbatim>\<open>url.Userinfo\<close>, \<^verbatim>\<open>url.URL\<close> and \<^verbatim>\<open>http.Request\<close> that the logger reads.
  \<open>EscapedPath\<close> stands for the result of the method \<^verbatim>\<open>URL.EscapedPath()\<close>, which
  \<^verbatim>\<open>net/url\<close> derives from the path fields.
\<close>

record Userinfo =
  username :: gostring

record URL =
  Scheme :: gostring
  Opaque :: gostring
  User :: "Userinfo option"
  EscapedPath :: gostring
  ForceQuery :: bool
  RawQuery :: gostring

record Request =
  Method :: gostring
  URL :: URL
  Proto :: gostring
  ProtoMajor :: int
  Header :: "gostring \<rightharpoonup> gostring list"
  Host :: gostring
  RemoteAddr :: gostring
  RequestURI :: gostring

text \<open>\<^verbatim>\<open>(*Userinfo).Username\<close>, on a non-nil receiver.\<close>

definition Username :: "Userinfo \<Rightarrow> gostring" where
  "Username u = username u"

text \<open>\<^verbatim>\<open>(*URL).RequestURI\<close>: the \<^verbatim>\<open>path?query\<close> or \<^verbatim>\<open>opaque?query\<close> string of an HTTP request.\<close>

definition URL_RequestURI :: "URL \<Rightarrow> gostring" where
  "URL_RequestURI u =
     (let result = Opaque u;
          result =
            (if result = [] then
               (let result = EscapedPath u in if result = [] then bytes ''/'' else result)
             else if take 2 result = bytes ''//'' then Scheme u @ bytes '':'' @ result
             else result)
      in if ForceQuery u \<or> RawQuery u \<noteq> [] then result @ bytes ''?'' @ RawQuery u else result)"

text \<open>
  \<^verbatim>\<open>Header.Get\<close>: the first value stored under the key, or the empty string. The two keys
  the logger asks for are already in canonical form.
\<close>

definition Header_Get :: "(gostring \<rightharpoonup> gostring list) \<Rightarrow> gostring \<Rightarrow> gostring" where
  "Header_Get h key =
     (case h key of None \<Rightarrow> [] | Some v \<Rightarrow> if length v = 0 then [] else v ! 0)"

definition Referer :: "Request \<Rightarrow> gostring" where
  "Referer r = Header_Get (Header r) (bytes ''Referer'')"

definition UserAgent :: "Request \<Rightarrow> gostring" where
  "UserAgent r = Header_Get (Header r) (bytes ''User-Agent'')"

section \<open>The line builders\<close>

text \<open>\<^verbatim>\<open>prettyDuration\<close>: a \<^verbatim>\<open>time.Duration\<close> is a count of nanoseconds.\<close>

definition prettyDuration :: "int \<Rightarrow> gostring" where
  "prettyDuration dur =
     (let ms = float64_div (float64_of_int dur) (float64_of_int 1000000)
      in formatFixed3 ms @ bytes ''ms'')"

text \<open>
  \<^verbatim>\<open>buildCommonLogLine\<close>. The parameter \<open>tab\<close> is the table of \<^verbatim>\<open>strconv.IsPrint\<close>; every
  \<^verbatim>\<open>append\<close> to \<^verbatim>\<open>buf\<close> is one binding of \<open>buf\<close>.
\<close>

definition buildCommonLogLine ::
  "(rune \<Rightarrow> bool) \<Rightarrow> Request \<Rightarrow> Time \<Rightarrow> int \<Rightarrow> int \<Rightarrow> int \<Rightarrow> gostring" where
  "buildCommonLogLine tab req ts status size' delay =
     (let username = bytes ''-'';
          url = URL req;
          username =
            (case User url of
               None \<Rightarrow> username
             | Some u \<Rightarrow> (let name = Username u in if name \<noteq> [] then name else username));
          host =
            (case SplitHostPort (RemoteAddr req) of
               Inl err \<Rightarrow> RemoteAddr req
             | Inr hp \<Rightarrow> fst hp);
          uri = RequestURI req;
          uri = (if ProtoMajor req = 2 \<and> Method req = bytes ''CONNECT'' then Host req else uri);
          uri = (if uri = [] then URL_RequestURI url else uri);
          buf = [];
          buf = buf @ host;
          buf = buf @ bytes '' - '';
          buf = buf @ username;
          buf = buf @ bytes '' ['';
          buf = buf @ FormatTime ts;
          buf = buf @ bytes ''] '' @ [dquote];
          buf = buf @ Method req;
          buf = buf @ bytes '' '';
          buf = appendQuoted tab buf uri;
          buf = buf @ bytes '' '';
          buf = buf @ Proto req;
          buf = buf @ [dquote] @ bytes '' '';
          buf = buf @ Itoa status;
          buf = buf @ bytes '' '';
          buf = buf @ Itoa size';
          buf = buf @ bytes '' '';
          buf = buf @ prettyDuration delay
      in buf)"

text \<open>
  The sink is an \<^verbatim>\<open>io.Writer\<close>; it is modelled by the list of the byte strings written
  to it, one per call of \<^verbatim>\<open>Write\<close>. The result of \<^verbatim>\<open>Write\<close> is dropped by the source.
\<close>

type_synonym Writer = "gostring list"

definition Write :: "Writer \<Rightarrow> gostring \<Rightarrow> Writer" where
  "Write w p = w @ [p]"

definition writeCommonLog ::
  "(rune \<Rightarrow> bool) \<Rightarrow> Writer \<Rightarrow> Request \<Rightarrow> Time \<Rightarrow> int \<Rightarrow> int \<Rightarrow> int \<Rightarrow> Writer" where
  "writeCommonLog tab w req ts status size' delay =
     (let buf = buildCommonLogLine tab req ts status size' delay;
          buf = buf @ [0x0A]
      in Write w buf)"

definition writeCombinedLog ::
  "(rune \<Rightarrow> bool) \<Rightarrow> Writer \<Rightarrow> Request \<Rightarrow> Time \<Rightarrow> int \<Rightarrow> int \<Rightarrow> int \<Rightarrow> Writer" where
  "writeCombinedLog tab w req ts status size' delay =
     (let buf = buildCommonLogLine tab req ts status size' delay;
          buf = buf @ bytes '' '' @ [dquote];
          buf = appendQuoted tab buf (Referer req);
          buf = buf @ [dquote] @ bytes '' '' @ [dquote];
          buf = appendQuoted tab buf (UserAgent req);
          buf = buf @ [dquote, 0x0A]
      in Write w buf)"

section \<open>Termination of the scanning loop\<close>

lemma quoteStep_iter:
  "\<exists>n\<le>length s. (quoteStep tab ^^ n) (buf, s) = (appendQuoted tab buf s, [])"
proof (induction tab buf s rule: appendQuoted.induct)
  case (1 tab buf s)
  show ?case
  proof (cases "s = []")
    case True
    then show ?thesis by (simp add: appendQuoted_Nil)
  next
    case False
    obtain buf' s' where st: "quoteStep tab (buf, s) = (buf', s')"
      by (cases "quoteStep tab (buf, s)")
    have len: "length s' < length s" using quoteStep_shorter [OF False, of tab buf] st by simp
    from "1.IH" False st obtain n where n: "n \<le> length s'"
      "(quoteStep tab ^^ n) (buf', s') = (appendQuoted tab buf' s', [])" by auto
    have "(quoteStep tab ^^ Suc n) (buf, s) = (quoteStep tab ^^ n) (quoteStep tab (buf, s))"
      by (simp add: funpow_swap1)
    also have "\<dots> = (appendQuoted tab buf' s', [])" using n st by simp
    also have "appendQuoted tab buf' s' = appendQuoted tab buf s"
      using False st by (subst (2) appendQuoted.simps) simp
    finally have "(quoteStep tab ^^ Suc n) (buf, s) = (appendQuoted tab buf s, [])" .
    moreover have "Suc n \<le> length s" using n len by simp
    ultimately show ?thesis by blast
  qed
qed

text \<open>
  Claim C10. The loop of the escaping primitive is total: one iteration on a non-empty
  string leaves a strictly shorter string to scan, and iterating the loop body at most
  \<open>length s\<close> times from \<open>(buf, s)\<close> reaches the state with nothing left to scan, whose
  buffer is the value \<open>appendQuoted\<close> returns.
\<close>

theorem appendQuoted_total:
  "(s \<noteq> [] \<longrightarrow> length (snd (quoteStep tab (buf, s))) < length s) \<and>
   (\<exists>n\<le>length s. (quoteStep tab ^^ n) (buf, s) = (appendQuoted tab buf s, []))"
  using quoteStep_shorter [of s tab buf] quoteStep_iter [of s tab buf] by simp

theorem appendQuoted_total_witness:
  "[0x61, 0xFF, 0x22] \<noteq> ([] :: gostring) \<and>
   length (snd (quoteStep (\<lambda>_. False) ([], [0x61, 0xFF, 0x22]))) < length [0x61, 0xFF, 0x22 :: byte] \<and>
   (\<exists>n\<le>length [0x61, 0xFF, 0x22 :: byte]. (quoteStep (\<lambda>_. False) ^^ n) ([], [0x61, 0xFF, 0x22])
       = (appendQuoted (\<lambda>_. False) [] [0x61, 0xFF, 0x22], []))"
  using appendQuoted_total [of "[0x61, 0xFF, 0x22]" "\<lambda>_. False" "[]"] by simp




section \<open>Decoding and encoding agree on valid text\<close>


lemma byte_le_iff: "(a::byte) \<le> b \<longleftrightarrow> uint a \<le> uint b" "(a::byte) < b \<longleftrightarrow> uint a < uint b"
  by (simp_all add: word_le_def word_less_def)
lemma mod_known: "c * m \<le> a \<Longrightarrow> a < (c + 1) * m \<Longrightarrow> (a::int) mod m = a - c * m"
proof -
  assume h: "c * m \<le> a" "a < (c + 1) * m"
  have "(a - c * m) mod m = a - c * m" using h by (simp add: algebra_simps)
  moreover have "(a - c * m + c * m) mod m = (a - c * m) mod m" by (rule mod_mult_self1)
  ultimately show ?thesis by simp
qed


lemma lead: 
  assumes "c * 2 ^ k \<le> uint (b::byte)" "uint b < (c + 1) * 2 ^ k" "0 \<le> c"
  shows "push_bit k (word_of_int c) OR take_bit k b = b"
proof -
  have u: "uint b = int (unat b)" by simp
  have "int (nat c * 2 ^ k) \<le> int (unat b)" "int (unat b) < int ((nat c + 1) * 2 ^ k)"
    using assms unfolding u by (simp_all add: algebra_simps)
  then have "nat c * 2 ^ k \<le> unat b" "unat b < (nat c + 1) * 2 ^ k"
    by (simp_all only: of_nat_le_iff of_nat_less_iff)
  from hi_bits [OF this] have "drop_bit k b = word_of_int c" using assms(3) by simp
  then show ?thesis using split_byte [of k b] by simp
qed

lemma lead2: "0xC2 \<le> uint s0 \<Longrightarrow> uint s0 \<le> 0xDF \<Longrightarrow> 0xC0 OR take_bit 5 s0 = (s0::byte)"
  using lead [of 6 5 s0] by simp
lemma lead3: "0xE0 \<le> uint s0 \<Longrightarrow> uint s0 \<le> 0xEF \<Longrightarrow> 0xE0 OR take_bit 4 s0 = (s0::byte)"
  using lead [of 14 4 s0] by simp
lemma lead4: "0xF0 \<le> uint s0 \<Longrightarrow> uint s0 \<le> 0xF7 \<Longrightarrow> 0xF0 OR take_bit 3 s0 = (s0::byte)"
  using lead [of 30 3 s0] by simp
lemma cont: "0x80 \<le> uint s0 \<Longrightarrow> uint s0 \<le> 0xBF \<Longrightarrow> 0x80 OR take_bit 6 s0 = (s0::byte)"
  using lead [of 2 6 s0] by simp


lemma w_and_mask6: "(word_of_int k :: byte) AND 0x3F = word_of_int (take_bit 6 k)"
  using w_and_mask [of 6 k] by (simp add: m6)

lemma uint_and_masks:
  "uint ((b::byte) AND 0x3F) = take_bit 6 (uint b)"
  "uint ((b::byte) AND 0x1F) = take_bit 5 (uint b)"
  "uint ((b::byte) AND 0x0F) = take_bit 4 (uint b)"
  "uint ((b::byte) AND 0x07) = take_bit 3 (uint b)"
  by (simp_all only: m6 uint_and_mask)


lemma two_sound:
  assumes "0xC2 \<le> uint s0" "uint s0 \<le> 0xDF" "0x80 \<le> uint s1" "uint s1 \<le> 0xBF"
  defines "r \<equiv> push_bit 6 (uint (s0 AND 0x1F)) OR uint (s1 AND 0x3F)"
  shows "0x80 \<le> r \<and> r \<le> 0x7FF" and "EncodeRune r = [s0, s1]"
proof -
  have r: "r = push_bit 6 (take_bit 5 (uint s0)) OR take_bit 6 (uint s1)"
    unfolding r_def by (simp only: uint_and_masks)
  have m: "uint s0 mod 32 = uint s0 - 192" "uint s1 mod 64 = uint s1 - 128"
    using mod_known [of 6 32 "uint s0"] mod_known [of 2 64 "uint s1"] assms(1-4) by simp_all
  have val: "r = (uint s0 mod 32) * 64 + uint s1 mod 64" by (simp only: r v2)
  show rng: "0x80 \<le> r \<and> r \<le> 0x7FF" using assms(1-4) unfolding val m by simp
  have t: "take_bit 32 r = r" using rng by (simp add: take_bit_int_eq_self)
  have b0: "0xC0 OR word_of_int (drop_bit 6 r) = s0"
    using lead2 [OF assms(1,2)] by (simp only: r f2 w_take)
  have b1: "0x80 OR (word_of_int r AND 0x3F) = s1"
    using cont [OF assms(3,4)] by (simp only: w_and_mask6 r f2 w_take)
  have c: "\<not> r \<le> 0x7F" "r \<le> 0x7FF" using rng by simp_all
  show "EncodeRune r = [s0, s1]"
    unfolding EncodeRune_def Let_def t by (simp only: c b0 b1 if_True if_False)
qed

lemma three_sound:
  assumes "(uint s0 = 0xE0 \<and> 0xA0 \<le> uint s1 \<and> uint s1 \<le> 0xBF)
         \<or> (0xE1 \<le> uint s0 \<and> uint s0 \<le> 0xEC \<and> 0x80 \<le> uint s1 \<and> uint s1 \<le> 0xBF)
         \<or> (uint s0 = 0xED \<and> 0x80 \<le> uint s1 \<and> uint s1 \<le> 0x9F)
         \<or> (0xEE \<le> uint s0 \<and> uint s0 \<le> 0xEF \<and> 0x80 \<le> uint s1 \<and> uint s1 \<le> 0xBF)"
    and "0x80 \<le> uint s2" "uint s2 \<le> 0xBF"
  defines "r \<equiv> push_bit 12 (uint (s0 AND 0x0F)) OR push_bit 6 (uint (s1 AND 0x3F)) OR uint (s2 AND 0x3F)"
  shows "0x800 \<le> r \<and> r \<le> 0xFFFF \<and> \<not> (0xD800 \<le> r \<and> r \<le> 0xDFFF)" and "EncodeRune r = [s0, s1, s2]"
proof -
  have r: "r = push_bit 12 (take_bit 4 (uint s0)) OR push_bit 6 (take_bit 6 (uint s1)) OR take_bit 6 (uint s2)"
    unfolding r_def by (simp only: uint_and_masks)
  have a0: "0xE0 \<le> uint s0" "uint s0 \<le> 0xEF" and a1: "0x80 \<le> uint s1" "uint s1 \<le> 0xBF"
    using assms(1) by auto
  have m: "uint s0 mod 16 = uint s0 - 224" "uint s1 mod 64 = uint s1 - 128" "uint s2 mod 64 = uint s2 - 128"
    using mod_known [of 14 16 "uint s0"] mod_known [of 2 64 "uint s1"] mod_known [of 2 64 "uint s2"]
      a0 a1 assms(2,3) by simp_all
  have val: "r = (uint s0 mod 16) * 4096 + (uint s1 mod 64) * 64 + uint s2 mod 64" by (simp only: r v3)
  show rng: "0x800 \<le> r \<and> r \<le> 0xFFFF \<and> \<not> (0xD800 \<le> r \<and> r \<le> 0xDFFF)"
    using assms(1-3) unfolding val m by auto
  have t: "take_bit 32 r = r" using rng by (simp add: take_bit_int_eq_self)
  have b0: "0xE0 OR word_of_int (drop_bit 12 r) = s0"
    using lead3 [OF a0] by (simp only: r f3 w_take)
  have b1: "0x80 OR (word_of_int (drop_bit 6 r) AND 0x3F) = s1"
    using cont [OF a1] by (simp only: w_and_mask6 r f3 w_take)
  have b2: "0x80 OR (word_of_int r AND 0x3F) = s2"
    using cont [OF assms(2,3)] by (simp only: w_and_mask6 r f3 w_take)
  have c: "\<not> r \<le> 0x7F" "\<not> r \<le> 0x7FF" "\<not> r > MaxRune" "\<not> (surrogateMin \<le> r \<and> r \<le> surrogateMax)" "r \<le> 0xFFFF"
    using rng by (simp_all add: MaxRune_def surrogateMin_def surrogateMax_def)
  show "EncodeRune r = [s0, s1, s2]"
    unfolding EncodeRune_def Let_def t by (simp only: c b0 b1 b2 if_True if_False simp_thms)
qed

lemma four_sound:
  assumes "(uint s0 = 0xF0 \<and> 0x90 \<le> uint s1 \<and> uint s1 \<le> 0xBF)
         \<or> (0xF1 \<le> uint s0 \<and> uint s0 \<le> 0xF3 \<and> 0x80 \<le> uint s1 \<and> uint s1 \<le> 0xBF)
         \<or> (uint s0 = 0xF4 \<and> 0x80 \<le> uint s1 \<and> uint s1 \<le> 0x8F)"
    and "0x80 \<le> uint s2" "uint s2 \<le> 0xBF" "0x80 \<le> uint s3" "uint s3 \<le> 0xBF"
  defines "r \<equiv> push_bit 18 (uint (s0 AND 0x07)) OR push_bit 12 (uint (s1 AND 0x3F))
                     OR push_bit 6 (uint (s2 AND 0x3F)) OR uint (s3 AND 0x3F)"
  shows "0x10000 \<le> r \<and> r \<le> 0x10FFFF" and "EncodeRune r = [s0, s1, s2, s3]"
proof -
  have r: "r = push_bit 18 (take_bit 3 (uint s0)) OR push_bit 12 (take_bit 6 (uint s1))
       OR push_bit 6 (take_bit 6 (uint s2)) OR take_bit 6 (uint s3)"
    unfolding r_def by (simp only: uint_and_masks)
  have a0: "0xF0 \<le> uint s0" "uint s0 \<le> 0xF7" and a1: "0x80 \<le> uint s1" "uint s1 \<le> 0xBF"
    using assms(1) by auto
  have m: "uint s0 mod 8 = uint s0 - 240" "uint s1 mod 64 = uint s1 - 128" "uint s2 mod 64 = uint s2 - 128"
     "uint s3 mod 64 = uint s3 - 128"
    using mod_known [of 30 8 "uint s0"] mod_known [of 2 64 "uint s1"] mod_known [of 2 64 "uint s2"]
      mod_known [of 2 64 "uint s3"] a0 a1 assms(2-5) by simp_all
  have val: "r = (uint s0 mod 8) * 262144 + (uint s1 mod 64) * 4096 + (uint s2 mod 64) * 64 + uint s3 mod 64"
    by (simp only: r v4)
  show rng: "0x10000 \<le> r \<and> r \<le> 0x10FFFF"
    using assms(1-5) unfolding val m by auto
  have t: "take_bit 32 r = r" using rng by (simp add: take_bit_int_eq_self)
  have b0: "0xF0 OR word_of_int (drop_bit 18 r) = s0"
    using lead4 [OF a0] by (simp only: r f4 w_take)
  have b1: "0x80 OR (word_of_int (drop_bit 12 r) AND 0x3F) = s1"
    using cont [OF a1] by (simp only: w_and_mask6 r f4 w_take)
  have b2: "0x80 OR (word_of_int (drop_bit 6 r) AND 0x3F) = s2"
    using cont [OF assms(2,3)] by (simp only: w_and_mask6 r f4 w_take)
  have b3: "0x80 OR (word_of_int r AND 0x3F) = s3"
    using cont [OF assms(4,5)] by (simp only: w_and_mask6 r f4 w_take)
  have c: "\<not> r \<le> 0x7F" "\<not> r \<le> 0x7FF" "\<not> r > MaxRune" "\<not> (surrogateMin \<le> r \<and> r \<le> surrogateMax)" "\<not> r \<le> 0xFFFF"
    using rng by (simp_all add: MaxRune_def surrogateMin_def surrogateMax_def)
  show "EncodeRune r = [s0, s1, s2, s3]"
    unfolding EncodeRune_def Let_def t by (simp only: c b0 b1 b2 b3 if_True if_False simp_thms)
qed





lemma take_1: "s \<noteq> [] \<Longrightarrow> take (Suc 0) s = [s ! 0]"
  by (cases s) simp_all

lemma take_nths:
  "2 \<le> length s \<Longrightarrow> take 2 s = [s ! 0, s ! 1]"
  "3 \<le> length s \<Longrightarrow> take 3 s = [s ! 0, s ! 1, s ! 2]"
  "4 \<le> length s \<Longrightarrow> take 4 s = [s ! 0, s ! 1, s ! 2, s ! 3]"
  by (auto simp: eval_nat_numeral Suc_le_length_iff)

lemma ascii_sound: "uint (b::byte) < 0x80 \<Longrightarrow> EncodeRune (uint b) = [b]"
  by (simp add: EncodeRune_def take_bit_int_eq_self)

lemma decode_valid_2:
  assumes "s \<noteq> []" "utf8_first (s ! 0) = 0x02" "DecodeRuneInString s = (r, w)" "\<not> (r = RuneError \<and> w = 1)"
  shows "w = 2 \<and> w \<le> length s \<and> EncodeRune r = take w s \<and> 0x80 \<le> r \<and> r \<le> MaxRune"
proof -
  note d = dec_2 [OF assms(1,2)]
  have v: "\<not> (length s < 2 \<or> s ! 1 < locb \<or> hicb < s ! 1)"
    using d assms(3,4) by (auto split: if_splits)
  then have len: "2 \<le> length s" and c1: "0x80 \<le> uint (s ! 1)" "uint (s ! 1) \<le> 0xBF"
    by (simp_all add: byte_le_iff locb_def hicb_def)
  have c0: "0xC2 \<le> uint (s ! 0)" "uint (s ! 0) \<le> 0xDF" using assms(2) by (simp_all add: first_iff)
  have rw: "r = push_bit 6 (uint (s ! 0 AND 0x1F)) OR uint (s ! 1 AND 0x3F)" "w = 2"
    using d v assms(3) by simp_all
  from two_sound [OF c0 c1] show ?thesis
    using len by (simp add: rw take_nths MaxRune_def)
qed


lemma decode_valid_3:
  assumes "s \<noteq> []" "utf8_first (s ! 0) = x" "x = 0x03 \<or> x = 0x13 \<or> x = 0x23"
    "DecodeRuneInString s = (r, w)" "\<not> (r = RuneError \<and> w = 1)"
  shows "w = 3 \<and> w \<le> length s \<and> EncodeRune r = take w s \<and> 0x80 \<le> r \<and> r \<le> MaxRune"
proof -
  obtain lo hi where a: "acceptRanges (drop_bit 4 x) = (lo, hi)"
    by (cases "acceptRanges (drop_bit 4 x)")
  have lohi: "(x = 0x03 \<and> lo = 0x80 \<and> hi = 0xBF) \<or> (x = 0x13 \<and> lo = 0xA0 \<and> hi = 0xBF)
      \<or> (x = 0x23 \<and> lo = 0x80 \<and> hi = 0x9F)"
    using assms(3) a by (auto simp: acceptRanges_def locb_def hicb_def)
  have x: "\<not> 0xF0 \<le> x" "unat (x AND 7) = 3" using assms(3) by auto
  note d = dec_3_gen [OF assms(1,2) x a]
  have v: "\<not> (length s < 3 \<or> s ! 1 < lo \<or> hi < s ! 1 \<or> s ! 2 < locb \<or> hicb < s ! 2)"
    using d assms(4,5) by (auto split: if_splits)
  then have len: "3 \<le> length s" and c1: "uint lo \<le> uint (s ! 1)" "uint (s ! 1) \<le> uint hi"
    and c2: "0x80 \<le> uint (s ! 2)" "uint (s ! 2) \<le> 0xBF"
    by (simp_all add: byte_le_iff locb_def hicb_def)
  have c0: "(uint (s ! 0) = 0xE0 \<and> 0xA0 \<le> uint (s ! 1) \<and> uint (s ! 1) \<le> 0xBF)
         \<or> (0xE1 \<le> uint (s ! 0) \<and> uint (s ! 0) \<le> 0xEC \<and> 0x80 \<le> uint (s ! 1) \<and> uint (s ! 1) \<le> 0xBF)
         \<or> (uint (s ! 0) = 0xED \<and> 0x80 \<le> uint (s ! 1) \<and> uint (s ! 1) \<le> 0x9F)
         \<or> (0xEE \<le> uint (s ! 0) \<and> uint (s ! 0) \<le> 0xEF \<and> 0x80 \<le> uint (s ! 1) \<and> uint (s ! 1) \<le> 0xBF)"
    using lohi assms(2) c1 by (auto simp: first_iff)
  have rw: "r = push_bit 12 (uint (s ! 0 AND 0x0F)) OR push_bit 6 (uint (s ! 1 AND 0x3F))
                   OR uint (s ! 2 AND 0x3F)" "w = 3"
    using d v assms(4) by simp_all
  from three_sound [OF c0 c2] show ?thesis
    using len by (simp add: rw take_nths MaxRune_def)
qed

lemma decode_valid_4:
  assumes "s \<noteq> []" "utf8_first (s ! 0) = x" "x = 0x04 \<or> x = 0x34 \<or> x = 0x44"
    "DecodeRuneInString s = (r, w)" "\<not> (r = RuneError \<and> w = 1)"
  shows "w = 4 \<and> w \<le> length s \<and> EncodeRune r = take w s \<and> 0x80 \<le> r \<and> r \<le> MaxRune"
proof -
  obtain lo hi where a: "acceptRanges (drop_bit 4 x) = (lo, hi)"
    by (cases "acceptRanges (drop_bit 4 x)")
  have lohi: "(x = 0x04 \<and> lo = 0x80 \<and> hi = 0xBF) \<or> (x = 0x34 \<and> lo = 0x90 \<and> hi = 0xBF)
      \<or> (x = 0x44 \<and> lo = 0x80 \<and> hi = 0x8F)"
    using assms(3) a by (auto simp: acceptRanges_def locb_def hicb_def)
  have x: "\<not> 0xF0 \<le> x" "unat (x AND 7) = 4" using assms(3) by auto
  note d = dec_4_gen [OF assms(1,2) x a]
  have v: "\<not> (length s < 4 \<or> s ! 1 < lo \<or> hi < s ! 1 \<or> s ! 2 < locb \<or> hicb < s ! 2
       \<or> s ! 3 < locb \<or> hicb < s ! 3)"
    using d assms(4,5) by (auto split: if_splits)
  then have len: "4 \<le> length s" and c1: "uint lo \<le> uint (s ! 1)" "uint (s ! 1) \<le> uint hi"
    and c2: "0x80 \<le> uint (s ! 2)" "uint (s ! 2) \<le> 0xBF"
    and c3: "0x80 \<le> uint (s ! 3)" "uint (s ! 3) \<le> 0xBF"
    by (simp_all add: byte_le_iff locb_def hicb_def)
  have c0: "(uint (s ! 0) = 0xF0 \<and> 0x90 \<le> uint (s ! 1) \<and> uint (s ! 1) \<le> 0xBF)
         \<or> (0xF1 \<le> uint (s ! 0) \<and> uint (s ! 0) \<le> 0xF3 \<and> 0x80 \<le> uint (s ! 1) \<and> uint (s ! 1) \<le> 0xBF)
         \<or> (uint (s ! 0) = 0xF4 \<and> 0x80 \<le> uint (s ! 1) \<and> uint (s ! 1) \<le> 0x8F)"
    using lohi assms(2) c1 by (auto simp: first_iff)
  have rw: "r = push_bit 18 (uint (s ! 0 AND 0x07)) OR push_bit 12 (uint (s ! 1 AND 0x3F))
                     OR push_bit 6 (uint (s ! 2 AND 0x3F)) OR uint (s ! 3 AND 0x3F)" "w = 4"
    using d v assms(4) by simp_all
  from four_sound [OF c0 c2 c3] show ?thesis
    using len by (simp add: rw take_nths MaxRune_def)
qed

lemma decode_valid:
  assumes "s \<noteq> []" "DecodeRuneInString s = (r, w)" "\<not> (r = RuneError \<and> w = 1)"
  shows "1 \<le> w \<and> w \<le> length s \<and> EncodeRune r = take w s \<and> 0 \<le> r \<and> r \<le> MaxRune
         \<and> (w = 1 \<longleftrightarrow> r < 0x80) \<and> (w = 1 \<longrightarrow> r = uint (s ! 0))"
proof -
  have n: "1 \<le> length s" using assms(1) by (cases s) auto
  consider "utf8_first (s ! 0) = 0xF0" | "utf8_first (s ! 0) = 0xF1" | "utf8_first (s ! 0) = 0x02"
    | "utf8_first (s ! 0) = 0x03 \<or> utf8_first (s ! 0) = 0x13 \<or> utf8_first (s ! 0) = 0x23"
    | "utf8_first (s ! 0) = 0x04 \<or> utf8_first (s ! 0) = 0x34 \<or> utf8_first (s ! 0) = 0x44"
    using utf8_first_cases [of "s ! 0"] by auto
  then show ?thesis
  proof cases
    case 1
    then have "uint (s ! 0) < 0x80" by (simp add: first_iff)
    then show ?thesis
      using n dec_as [OF assms(1) 1] assms(2) ascii_sound [of "s ! 0"] take_1 [OF assms(1)]
      by (auto simp: MaxRune_def)
  next
    case 2 then show ?thesis using dec_xx [OF assms(1)] assms(2,3) by simp
  next
    case 3 from decode_valid_2 [OF assms(1) 3 assms(2,3)] show ?thesis by auto
  next
    case 4 from decode_valid_3 [OF assms(1) refl 4 assms(2,3)] show ?thesis by auto
  next
    case 5 from decode_valid_4 [OF assms(1) refl 5 assms(2,3)] show ?thesis by auto
  qed
qed

lemma decode_range: "0 \<le> fst (DecodeRuneInString s) \<and> fst (DecodeRuneInString s) \<le> MaxRune"
proof (cases "s = []")
  case True
  then show ?thesis by (simp add: DecodeRuneInString_def RuneError_def MaxRune_def)
next
  case False
  obtain r w where d: "DecodeRuneInString s = (r, w)" by (cases "DecodeRuneInString s")
  show ?thesis
  proof (cases "r = RuneError \<and> w = 1")
    case True then show ?thesis using d by (simp add: RuneError_def MaxRune_def)
  next
    case False
    from decode_valid [OF \<open>s \<noteq> []\<close> d False] show ?thesis using d by simp
  qed
qed


section \<open>Undecodable bytes\<close>

lemma nibble_bounds: "unat (drop_bit 4 (b::byte)) < 16" "unat (b AND 0xF) < 16"
proof -
  have "unat (drop_bit 4 b) = unat b div 16"
    using unat_drop_bit_eq [of 4 b] by (simp add: drop_bit_eq_div)
  moreover have "unat b < 256" using unsigned_less [of b, where 'a = nat] by simp
  ultimately show "unat (drop_bit 4 b) < 16" by simp
  have "unat (b AND 0xF) \<le> unat (0xF :: byte)"
    by (rule word_and_le1 [THEN word_le_nat_alt [THEN iffD1]])
  then show "unat (b AND 0xF) < 16" by simp
qed

lemma lowerhex_distinct: "distinct lowerhex" "length lowerhex = 16"
  by (simp_all add: lowerhex_def bytes_def)

lemma hex_pair_inj:
  assumes "lowerhex ! unat (drop_bit 4 (b'::byte)) = lowerhex ! unat (drop_bit 4 (b::byte))"
    and "lowerhex ! unat (b' AND 0xF) = lowerhex ! unat (b AND 0xF)"
  shows "b' = b"
proof -
  have "unat (drop_bit 4 b') = unat (drop_bit 4 b)"
    using assms(1) nibble_bounds(1) [of b] nibble_bounds(1) [of b'] lowerhex_distinct
    by (simp add: nth_eq_iff_index_eq)
  then have hi: "drop_bit 4 b' = drop_bit 4 b" by (simp add: word_unat_eq_iff)
  have "unat (b' AND 0xF) = unat (b AND 0xF)"
    using assms(2) nibble_bounds(2) [of b] nibble_bounds(2) [of b'] lowerhex_distinct
    by (simp add: nth_eq_iff_index_eq)
  then have "b' AND 0xF = b AND 0xF" by (simp add: word_unat_eq_iff)
  then have lo: "take_bit 4 b' = take_bit 4 b" by (simp add: m6 take_bit_eq_mask)
  have "b' = push_bit 4 (drop_bit 4 b') OR take_bit 4 b'" by (simp only: split_byte)
  also have "\<dots> = push_bit 4 (drop_bit 4 b) OR take_bit 4 b" by (simp only: hi lo)
  also have "\<dots> = b" by (simp only: split_byte)
  finally show ?thesis .
qed

lemma invalid_head:
  assumes "s \<noteq> []" "DecodeRuneInString s = (RuneError, 1)"
  shows "headRune s = (RuneError, 1)"
proof (cases "uint (s ! 0) < 0x80")
  case True
  then have "utf8_first (s ! 0) = 0xF0" by (simp add: first_iff)
  from dec_as [OF assms(1) this] assms(2) True show ?thesis by (simp add: RuneError_def)
next
  case False
  then show ?thesis using assms(2) by (simp add: headRune_def RuneSelf_def)
qed

lemma dec_ex: "DecodeRuneInString [0xE2, 0x82, 0x41] = (RuneError, 1)"
  by (simp add: DecodeRuneInString_def utf8_first_def acceptRanges_def locb_def hicb_def Let_def)

section \<open>The shape of the output\<close>

lemma appendQuoted_buf: "appendQuoted tab buf s = buf @ appendQuoted tab [] s"
proof (induction "length s" arbitrary: s buf rule: less_induct)
  case less
  show ?case
  proof (cases "s = []")
    case True
    then show ?thesis by (simp add: appendQuoted_Nil)
  next
    case False
    define c where "c = escapeRune tab (fst (headRune s)) (snd (headRune s)) (s ! 0)"
    define s' where "s' = drop (snd (headRune s)) s"
    have len: "length s' < length s"
      using headRune_width [OF False] False by (simp add: s'_def)
    have "appendQuoted tab buf s = appendQuoted tab (buf @ c) s'"
      by (simp add: appendQuoted_step [OF False] c_def s'_def)
    also have "\<dots> = (buf @ c) @ appendQuoted tab [] s'" by (rule less [OF len])
    finally have 1: "appendQuoted tab buf s = buf @ c @ appendQuoted tab [] s'" by simp
    have "appendQuoted tab [] s = appendQuoted tab ([] @ c) s'"
      by (simp add: appendQuoted_step [OF False] c_def s'_def)
    also have "\<dots> = ([] @ c) @ appendQuoted tab [] s'" by (rule less [OF len])
    finally have 2: "appendQuoted tab [] s = c @ appendQuoted tab [] s'" by simp
    show ?thesis by (simp add: 1 2)
  qed
qed

lemma appendQuoted_unfold:
  "s \<noteq> [] \<Longrightarrow> appendQuoted tab [] s =
     escapeRune tab (fst (headRune s)) (snd (headRune s)) (s ! 0)
       @ appendQuoted tab [] (drop (snd (headRune s)) s)"
  by (subst appendQuoted_step, assumption, subst appendQuoted_buf) simp




section \<open>Text that needs no escaping\<close>

lemma headRune_eq: "s \<noteq> [] \<Longrightarrow> headRune s = DecodeRuneInString s"
proof (cases "uint (s ! 0) < 0x80")
  case True
  assume "s \<noteq> []"
  from dec_as [OF this] True show ?thesis
    by (simp add: first_iff headRune_def RuneSelf_def)
next
  case False
  then show ?thesis by (simp add: headRune_def RuneSelf_def)
qed

text \<open>
  The runes of a string with their widths, as Go's \<^verbatim>\<open>for range\<close> over a string reads
  them: one \<^verbatim>\<open>DecodeRuneInString\<close> after the other. A string is valid text when no step
  answers \<open>(RuneError, 1)\<close>.
\<close>

function decodeAll :: "gostring \<Rightarrow> (rune \<times> nat) list" where
  "decodeAll s =
     (if s = [] then []
      else DecodeRuneInString s # decodeAll (drop (snd (DecodeRuneInString s)) s))"
  by pat_completeness auto
termination
proof (relation "measure length")
  show "wf (measure length)" by simp
  fix s :: gostring
  assume "s \<noteq> []"
  then show "(drop (snd (DecodeRuneInString s)) s, s) \<in> measure length"
    using DecodeRuneInString_width [of s] by (cases s) simp_all
qed

declare decodeAll.simps [simp del]

definition validText :: "gostring \<Rightarrow> bool" where
  "validText s \<longleftrightarrow> (\<forall>d \<in> set (decodeAll s). \<not> (fst d = RuneError \<and> snd d = 1))"

definition plainText :: "(rune \<Rightarrow> bool) \<Rightarrow> gostring \<Rightarrow> bool" where
  "plainText tab s \<longleftrightarrow>
     (\<forall>d \<in> set (decodeAll s). IsPrint tab (fst d) \<and> fst d \<noteq> uint dquote \<and> fst d \<noteq> uint bslash)"

lemma plain_unchanged:
  "validText s \<Longrightarrow> plainText tab s \<Longrightarrow> appendQuoted tab [] s = s"
proof (induction "length s" arbitrary: s rule: less_induct)
  case less
  show ?case
  proof (cases "s = []")
    case True
    then show ?thesis by (simp add: appendQuoted_Nil)
  next
    case False
    obtain r w where d: "DecodeRuneInString s = (r, w)" by (cases "DecodeRuneInString s")
    have da: "decodeAll s = (r, w) # decodeAll (drop w s)"
      using False d by (subst decodeAll.simps) simp
    have ok: "\<not> (r = RuneError \<and> w = 1)" using less.prems(1) by (simp add: validText_def da)
    have pr: "IsPrint tab r" "r \<noteq> uint dquote" "r \<noteq> uint bslash"
      using less.prems(2) by (simp_all add: plainText_def da)
    have rest: "validText (drop w s)" "plainText tab (drop w s)"
      using less.prems by (simp_all add: validText_def plainText_def da)
    from decode_valid [OF False d ok] have w: "1 \<le> w" "w \<le> length s" and enc: "EncodeRune r = take w s"
      by simp_all
    have len: "length (drop w s) < length s" using w False by (cases s) simp_all
    have "appendQuoted tab [] s = escapeRune tab r w (s ! 0) @ appendQuoted tab [] (drop w s)"
      using appendQuoted_unfold [OF False, of tab] by (simp add: headRune_eq [OF False] d)
    also have "escapeRune tab r w (s ! 0) = take w s"
      using ok pr enc by (auto simp: escapeRune_def)
    also have "appendQuoted tab [] (drop w s) = drop w s" by (rule less.hyps [OF len rest])
    finally show ?thesis by simp
  qed
qed

text \<open>
  Claim C4. A string that is valid UTF-8 and whose every character is printable and is
  neither a double quote nor a backslash is appended to the buffer unchanged.
\<close>

theorem printable_unchanged:
  assumes "validText s" and "plainText tab s"
  shows "appendQuoted tab buf s = buf @ s"
  using plain_unchanged [OF assms] appendQuoted_buf [of tab buf s] by simp




lemma decodeAll_Nil: "decodeAll [] = []"
  by (simp add: decodeAll.simps)

lemma decodeAll_Cons:
  "decodeAll (c # s) = DecodeRuneInString (c # s)
      # decodeAll (drop (snd (DecodeRuneInString (c # s))) (c # s))"
  by (subst decodeAll.simps) simp

lemma dec_cafe: "decodeAll (bytes ''caf'' @ [0xC3, 0xA9]) = [(0x63, 1), (0x61, 1), (0x66, 1), (0xE9, 2)]"
  by (simp add: bytes_def decodeAll_Cons decodeAll_Nil DecodeRuneInString_def utf8_first_def
        acceptRanges_def locb_def hicb_def Let_def)

theorem printable_unchanged_witness:
  "validText (bytes ''caf'' @ [0xC3, 0xA9]) \<and> plainText (\<lambda>_. False) (bytes ''caf'' @ [0xC3, 0xA9])
   \<and> appendQuoted (\<lambda>_. False) (bytes ''GET '') (bytes ''caf'' @ [0xC3, 0xA9])
       = bytes ''GET caf'' @ [0xC3, 0xA9]"
proof -
  have v: "validText (bytes ''caf'' @ [0xC3, 0xA9])"
    by (simp add: validText_def dec_cafe RuneError_def)
  have p: "plainText (\<lambda>_. False) (bytes ''caf'' @ [0xC3, 0xA9])"
    by (simp add: plainText_def dec_cafe IsPrint_def dquote_def bslash_def)
  from printable_unchanged [OF v p, of "bytes ''GET ''"] v p show ?thesis
    by (simp add: bytes_def)
qed



section \<open>Double quotes in the output\<close>

text \<open>
  A byte string keeps a quoted field delimited when each of its double quotes directly
  follows a backslash.
\<close>

definition quotesEscaped :: "gostring \<Rightarrow> bool" where
  "quotesEscaped out \<longleftrightarrow>
     (\<forall>i<length out. out ! i = dquote \<longrightarrow> 0 < i \<and> out ! (i - 1) = bslash)"

lemma quotesEscaped_Nil: "quotesEscaped []"
  by (simp add: quotesEscaped_def)

lemma quotesEscaped_append:
  assumes "quotesEscaped a" "quotesEscaped b"
  shows "quotesEscaped (a @ b)"
  unfolding quotesEscaped_def
proof (intro allI impI)
  fix i
  assume i: "i < length (a @ b)" and q: "(a @ b) ! i = dquote"
  show "0 < i \<and> (a @ b) ! (i - 1) = bslash"
  proof (cases "i < length a")
    case True
    then have "a ! i = dquote" using q by (simp add: nth_append)
    with assms(1) True have "0 < i \<and> a ! (i - 1) = bslash" by (simp add: quotesEscaped_def)
    moreover have "i - 1 < length a" using True by simp
    ultimately show ?thesis by (simp add: nth_append)
  next
    case False
    define j where "j = i - length a"
    have j: "j < length b" "b ! j = dquote" using False i q by (simp_all add: j_def nth_append)
    with assms(2) have "0 < j \<and> b ! (j - 1) = bslash" by (simp add: quotesEscaped_def)
    then show ?thesis using False by (auto simp: nth_append j_def)
  qed
qed

lemma quotesEscaped_plain: "dquote \<notin> set c \<Longrightarrow> quotesEscaped c"
  unfolding quotesEscaped_def by (metis nth_mem)

lemma quotesEscaped_esc: "dquote \<notin> set c \<Longrightarrow> quotesEscaped (bslash # x # c)"
  unfolding quotesEscaped_def
proof (intro allI impI)
  fix i
  assume a: "dquote \<notin> set c" "i < length (bslash # x # c)" "(bslash # x # c) ! i = dquote"
  have "i = 1"
  proof (cases i)
    case 0 then show ?thesis using a(3) by (simp add: bslash_def dquote_def)
  next
    case (Suc k)
    show ?thesis
    proof (cases k)
      case 0 then show ?thesis using Suc by simp
    next
      case (Suc m)
      then have "c ! m = dquote" "m < length c" using a(2,3) \<open>i = Suc k\<close> by simp_all
      then show ?thesis using a(1) by (metis nth_mem)
    qed
  qed
  then show "0 < i \<and> (bslash # x # c) ! (i - 1) = bslash" by simp
qed

lemma hex_index: "nat (drop_bit sh (r::int) AND 0xF) < 16"
proof -
  have "drop_bit sh r AND 0xF \<le> 0xF" by (rule AND_upper2) simp
  then have "nat (drop_bit sh r AND 0xF) \<le> nat 0xF" by (rule nat_mono)
  then show ?thesis by simp
qed

lemma lowerhex_no_quote: "dquote \<notin> set lowerhex" "bslash \<notin> set lowerhex"
  by (simp_all add: lowerhex_def bytes_def dquote_def bslash_def)

lemma hexDigits_subset: "set (hexDigits shifts r) \<subseteq> set lowerhex"
proof
  fix y
  assume "y \<in> set (hexDigits shifts r)"
  then obtain sh where "y = lowerhex ! nat (drop_bit sh r AND 0xF)" by (auto simp: hexDigits_def)
  then show "y \<in> set lowerhex" using hex_index [of sh r] by (simp add: lowerhex_distinct)
qed

lemma hexDigits_no_quote: "dquote \<notin> set (hexDigits shifts r)" "bslash \<notin> set (hexDigits shifts r)"
  using hexDigits_subset [of shifts r] lowerhex_no_quote by blast+

lemma prefix_no_quote:
  "p \<in> {0x80, 0xC0, 0xE0, 0xF0} \<Longrightarrow> dquote \<noteq> p OR x \<and> bslash \<noteq> p OR x"
proof -
  assume "p \<in> {0x80, 0xC0, 0xE0, 0xF0}"
  then have "bit (p OR x) 7" using bit7 [of x] by auto
  from nb [OF this] show ?thesis by (simp add: dquote_def bslash_def eq_commute)
qed

lemma EncodeRune_no_quote:
  assumes "0 \<le> r" "r < 2 ^ 32" "r \<noteq> uint dquote" "r \<noteq> uint bslash"
  shows "dquote \<notin> set (EncodeRune r) \<and> bslash \<notin> set (EncodeRune r)"
proof -
  have t: "take_bit 32 r = r" using assms(1,2) by (simp add: take_bit_int_eq_self)
  show ?thesis
  proof (cases "r \<le> 0x7F")
    case True
    have "uint (word_of_int r :: byte) = r"
      using True assms(1) by (simp add: uint_word_of_int)
    then have "(word_of_int r :: byte) \<noteq> dquote" "(word_of_int r :: byte) \<noteq> bslash"
      using assms(3,4) by auto
    then show ?thesis using True by (auto simp add: EncodeRune_def t)
  next
    case False
    then show ?thesis
      by (simp add: EncodeRune_def Let_def t prefix_no_quote)
  qed
qed




lemma headRune_range: "s \<noteq> [] \<Longrightarrow> 0 \<le> fst (headRune s) \<and> fst (headRune s) \<le> MaxRune"
  using decode_range [of s] by (simp add: headRune_eq)

lemma nibble_in_lowerhex:
  "lowerhex ! unat (drop_bit 4 (b::byte)) \<in> set lowerhex" "lowerhex ! unat (b AND 0xF) \<in> set lowerhex"
  using nibble_bounds [of b] by (simp_all add: lowerhex_distinct)

lemma nibble_no_quote:
  "dquote \<notin> set [lowerhex ! unat (drop_bit 4 (b::byte)), lowerhex ! unat (b AND 0xF)]"
  using nibble_in_lowerhex [of b] lowerhex_no_quote by auto

lemma escapeRune_quotes:
  assumes "0 \<le> r" "r < 2 ^ 32"
  shows "quotesEscaped (escapeRune tab r w s0)"
proof -
  have e: "r \<noteq> uint dquote \<Longrightarrow> r \<noteq> uint bslash \<Longrightarrow> quotesEscaped (EncodeRune r)"
    using EncodeRune_no_quote [OF assms] by (simp add: quotesEscaped_plain)
  have n: "quotesEscaped [bslash, of_char CHR ''x'', lowerhex ! unat (drop_bit 4 s0), lowerhex ! unat (s0 AND 0xF)]"
    by (rule quotesEscaped_esc [OF nibble_no_quote])
  have two: "\<And>x. quotesEscaped [bslash, x]" by (rule quotesEscaped_esc) simp
  have h: "\<And>x sh k. quotesEscaped (bslash # x # hexDigits sh k)"
    by (rule quotesEscaped_esc) (rule hexDigits_no_quote)
  show ?thesis
    unfolding escapeRune_def using e n two h by (simp del: of_char_Char)
qed

lemma appendQuoted_quotesEscaped: "quotesEscaped (appendQuoted tab [] s)"
proof (induction "length s" arbitrary: s rule: less_induct)
  case less
  show ?case
  proof (cases "s = []")
    case True
    then show ?thesis by (simp add: appendQuoted_Nil quotesEscaped_Nil)
  next
    case False
    have len: "length (drop (snd (headRune s)) s) < length s"
      using headRune_width [OF False] False by simp
    have "fst (headRune s) < 2 ^ 32" "0 \<le> fst (headRune s)"
      using headRune_range [OF False] by (simp_all add: MaxRune_def)
    then have "quotesEscaped (escapeRune tab (fst (headRune s)) (snd (headRune s)) (s ! 0))"
      by (simp add: escapeRune_quotes)
    then show ?thesis
      using less [OF len] by (simp add: appendQuoted_unfold [OF False] quotesEscaped_append)
  qed
qed

text \<open>
  Claim C9. Whatever the buffer and the string, the bytes appended by the escaping
  primitive hold no bare double quote: each double-quote byte among them directly follows
  a backslash byte.
\<close>

theorem quotes_always_escaped:
  "appendQuoted tab buf s = buf @ appendQuoted tab [] s
   \<and> (\<forall>i<length (appendQuoted tab [] s). appendQuoted tab [] s ! i = dquote
         \<longrightarrow> 0 < i \<and> appendQuoted tab [] s ! (i - 1) = bslash)"
  using appendQuoted_buf [of tab buf s] appendQuoted_quotesEscaped [of tab s]
  by (simp add: quotesEscaped_def)

lemma appendQuoted_special:
  "c = dquote \<or> c = bslash \<Longrightarrow> appendQuoted tab buf (c # s) = appendQuoted tab (buf @ [bslash, c]) s"
  by (subst appendQuoted_step)
     (auto simp add: headRune_ascii escapeRune_def RuneError_def dquote_def bslash_def)

theorem quotes_always_escaped_witness:
  "appendQuoted (\<lambda>_. False) [] (bytes ''a'' @ [dquote]) = bytes ''a'' @ [bslash, dquote]
   \<and> (2::nat) < length (appendQuoted (\<lambda>_. False) [] (bytes ''a'' @ [dquote]))
   \<and> appendQuoted (\<lambda>_. False) [] (bytes ''a'' @ [dquote]) ! 2 = dquote
   \<and> appendQuoted (\<lambda>_. False) [] (bytes ''a'' @ [dquote]) ! (2 - 1) = bslash"
proof -
  have v: "appendQuoted (\<lambda>_. False) [] (bytes ''a'' @ [dquote]) = bytes ''a'' @ [bslash, dquote]"
    by (simp add: bytes_def appendQuoted_print_ascii appendQuoted_special appendQuoted_Nil
          dquote_def bslash_def)
  from quotes_always_escaped [of "\<lambda>_. False" "[]" "bytes ''a'' @ [dquote]"] 
  have "\<forall>i<length (appendQuoted (\<lambda>_. False) [] (bytes ''a'' @ [dquote])).
      appendQuoted (\<lambda>_. False) [] (bytes ''a'' @ [dquote]) ! i = dquote
         \<longrightarrow> 0 < i \<and> appendQuoted (\<lambda>_. False) [] (bytes ''a'' @ [dquote]) ! (i - 1) = bslash"
    by simp
  moreover have "(2::nat) < length (appendQuoted (\<lambda>_. False) [] (bytes ''a'' @ [dquote]))"
     "appendQuoted (\<lambda>_. False) [] (bytes ''a'' @ [dquote]) ! 2 = dquote"
    by (simp_all only: v) (simp_all add: bytes_def)
  ultimately have "appendQuoted (\<lambda>_. False) [] (bytes ''a'' @ [dquote]) ! (2 - 1) = bslash"
    by blast
  then show ?thesis using v by (simp add: bytes_def)
qed




section \<open>Double quotes and backslashes\<close>

lemma accept_lo:
  "acceptRanges (drop_bit 4 x) = (lo, hi) \<Longrightarrow> x \<in> {0x03, 0x13, 0x23, 0x04, 0x34, 0x44} \<Longrightarrow> 0x80 \<le> uint lo"
  by (auto simp: acceptRanges_def locb_def hicb_def)

lemma decode_local:
  assumes "a \<noteq> []" "uint c < 0x80"
  shows "DecodeRuneInString (a @ c # b) = DecodeRuneInString a"
proof -
  let ?s = "a @ c # b"
  have s: "?s \<noteq> []" "?s ! 0 = a ! 0" using assms(1) by (simp_all add: nth_append)
  have c: "c < locb" using assms(2) by (simp add: byte_le_iff locb_def)
  consider "utf8_first (a ! 0) = 0xF0" | "utf8_first (a ! 0) = 0xF1" | "utf8_first (a ! 0) = 0x02"
    | "utf8_first (a ! 0) = 0x03 \<or> utf8_first (a ! 0) = 0x13 \<or> utf8_first (a ! 0) = 0x23"
    | "utf8_first (a ! 0) = 0x04 \<or> utf8_first (a ! 0) = 0x34 \<or> utf8_first (a ! 0) = 0x44"
    using utf8_first_cases [of "a ! 0"] by auto
  then show ?thesis
  proof cases
    case 1
    then show ?thesis using dec_as [OF assms(1)] dec_as [OF s(1)] s(2) by simp
  next
    case 2
    then show ?thesis using dec_xx [OF assms(1)] dec_xx [OF s(1)] s(2) by simp
  next
    case 3
    note d1 = dec_2 [OF assms(1) 3]
    have "utf8_first (?s ! 0) = 0x02" using 3 by (simp only: s(2))
    note d2 = dec_2 [OF s(1) this]
    have "0 < length a" using assms(1) by simp
    then have "length a = 1 \<or> 2 \<le> length a" by linarith
    then show ?thesis
    proof
      assume "length a = 1"
      then show ?thesis unfolding d1 d2 using c by (simp add: nth_append)
    next
      assume "2 \<le> length a"
      then show ?thesis unfolding d1 d2 using assms(1) by (simp add: nth_append)
    qed
  next
    case 4
    obtain lo hi where ar: "acceptRanges (drop_bit 4 (utf8_first (a ! 0))) = (lo, hi)"
      by (cases "acceptRanges (drop_bit 4 (utf8_first (a ! 0)))")
    have x: "\<not> 0xF0 \<le> utf8_first (a ! 0)" "unat (utf8_first (a ! 0) AND 7) = 3" using 4 by auto
    have clo: "c < lo" using accept_lo [OF ar] 4 assms(2) by (auto simp: byte_le_iff)
    note d1 = dec_3_gen [OF assms(1) refl x ar]
    have "utf8_first (?s ! 0) = utf8_first (a ! 0)" by (simp only: s(2))
    note d2 = dec_3_gen [OF s(1) this x ar]
    have "0 < length a" using assms(1) by simp
    then have "length a = 1 \<or> length a = 2 \<or> 3 \<le> length a" by linarith
    then show ?thesis
    proof (elim disjE)
      assume "length a = 1"
      then show ?thesis unfolding d1 d2 using c clo by (simp add: nth_append)
    next
      assume "length a = 2"
      then show ?thesis unfolding d1 d2 using c clo by (simp add: nth_append)
    next
      assume "3 \<le> length a"
      then show ?thesis unfolding d1 d2 using assms(1) by (simp add: nth_append)
    qed
  next
    case 5
    obtain lo hi where ar: "acceptRanges (drop_bit 4 (utf8_first (a ! 0))) = (lo, hi)"
      by (cases "acceptRanges (drop_bit 4 (utf8_first (a ! 0)))")
    have x: "\<not> 0xF0 \<le> utf8_first (a ! 0)" "unat (utf8_first (a ! 0) AND 7) = 4" using 5 by auto
    have clo: "c < lo" using accept_lo [OF ar] 5 assms(2) by (auto simp: byte_le_iff)
    note d1 = dec_4_gen [OF assms(1) refl x ar]
    have "utf8_first (?s ! 0) = utf8_first (a ! 0)" by (simp only: s(2))
    note d2 = dec_4_gen [OF s(1) this x ar]
    have "0 < length a" using assms(1) by simp
    then have "length a = 1 \<or> length a = 2 \<or> length a = 3 \<or> 4 \<le> length a" by linarith
    then show ?thesis
    proof (elim disjE)
      assume "length a = 1"
      then show ?thesis unfolding d1 d2 using c clo by (simp add: nth_append)
    next
      assume "length a = 2"
      then show ?thesis unfolding d1 d2 using c clo by (simp add: nth_append)
    next
      assume "length a = 3"
      then show ?thesis unfolding d1 d2 using c clo by (simp add: nth_append)
    next
      assume "4 \<le> length a"
      then show ?thesis unfolding d1 d2 using assms(1) by (simp add: nth_append)
    qed
  qed
qed




lemma headRune_local:
  assumes "a \<noteq> []" "uint c < 0x80"
  shows "headRune (a @ c # b) = headRune a"
  using assms decode_local [OF assms, of b] by (simp add: headRune_def nth_append Let_def)

lemma special_ascii: "c = dquote \<or> c = bslash \<Longrightarrow> uint c < 0x80"
  by (auto simp: dquote_def bslash_def)

lemma special_in_context:
  assumes "c = dquote \<or> c = bslash"
  shows "appendQuoted tab [] (a @ c # b) = appendQuoted tab [] a @ [bslash, c] @ appendQuoted tab [] b"
proof (induction "length a" arbitrary: a rule: less_induct)
  case less
  show ?case
  proof (cases "a = []")
    case True
    then show ?thesis
      using appendQuoted_special [OF assms, of tab "[]" b] appendQuoted_buf [of tab "[bslash, c]" b]
      by (simp add: appendQuoted_Nil)
  next
    case False
    define w where "w = snd (headRune a)"
    have w: "1 \<le> w" "w \<le> length a" using headRune_width [OF False] by (simp_all add: w_def)
    have len: "length (drop w a) < length a" using w False by (cases a) simp_all
    have h: "headRune (a @ c # b) = headRune a"
      by (rule headRune_local [OF False special_ascii [OF assms]])
    have ne: "a @ c # b \<noteq> []" by simp
    have "appendQuoted tab [] (a @ c # b) =
        escapeRune tab (fst (headRune a)) w (a ! 0) @ appendQuoted tab [] (drop w a @ c # b)"
      using appendQuoted_unfold [OF ne, of tab] w False by (simp add: h w_def nth_append)
    also have "appendQuoted tab [] (drop w a @ c # b)
        = appendQuoted tab [] (drop w a) @ [bslash, c] @ appendQuoted tab [] b"
      by (rule less [OF len])
    finally show ?thesis
      using appendQuoted_unfold [OF False, of tab] by (simp add: w_def)
  qed
qed

text \<open>
  The characters of an escaped text that stand behind an escaping backslash, read from
  left to right: a backslash escapes the byte after it, and the scan goes on behind that
  byte. The special characters are the double quote and the backslash.
\<close>

fun escapedChars :: "gostring \<Rightarrow> gostring" where
  "escapedChars (b # c # rest) =
     (if b = bslash then c # escapedChars rest else escapedChars (c # rest))"
| "escapedChars _ = []"

definition special :: "byte \<Rightarrow> bool" where
  "special b \<longleftrightarrow> b = dquote \<or> b = bslash"

lemma escapedChars_plain: "bslash \<notin> set c \<Longrightarrow> escapedChars (c @ rest) = escapedChars rest"
proof (induction c)
  case Nil
  then show ?case by simp
next
  case (Cons y c)
  then show ?case by (cases "c @ rest") auto
qed

lemma escapedChars_esc:
  "bslash \<notin> set c \<Longrightarrow> escapedChars (bslash # x # c @ rest) = x # escapedChars rest"
  by (simp add: escapedChars_plain)




lemma nibble_no_bslash:
  "bslash \<notin> set [lowerhex ! unat (drop_bit 4 (b::byte)), lowerhex ! unat (b AND 0xF)]"
  using nibble_in_lowerhex [of b] lowerhex_no_quote by auto

lemma escapedChars_hex:
  "escapedChars ([bslash, x, lowerhex ! unat (drop_bit 4 (b::byte)), lowerhex ! unat (b AND 0xF)] @ rest)
     = x # escapedChars rest"
  using escapedChars_esc [OF nibble_no_bslash, of x b rest] by simp

lemma escapedChars_two: "escapedChars ([bslash, x] @ rest) = x # escapedChars rest"
  using escapedChars_esc [of "[]" x rest] by simp

lemma escapedChars_digits:
  "escapedChars ((bslash # x # hexDigits sh k) @ rest) = x # escapedChars rest"
  using escapedChars_esc [OF hexDigits_no_quote(2), of x sh k rest] by simp

lemma step_specials:
  assumes "s \<noteq> []"
  defines "r \<equiv> fst (headRune s)" and "w \<equiv> snd (headRune s)"
  shows "filter special (escapedChars (escapeRune tab r w (s ! 0) @ rest))
       = filter special (take w s) @ filter special (escapedChars rest)"
proof -
  have d: "DecodeRuneInString s = (r, w)" by (simp add: r_def w_def headRune_eq [OF assms(1)])
  have t1: "take (Suc 0) s = [s ! 0]" by (rule take_1 [OF assms(1)])
  show ?thesis
  proof (cases "w = 1 \<and> r = RuneError")
    case True
    have "\<not> uint (s ! 0) < 0x80"
    proof
      assume "uint (s ! 0) < 0x80"
      then have "headRune s = (uint (s ! 0), 1)" by (simp add: headRune_def RuneSelf_def)
      then show False using True \<open>uint (s ! 0) < 0x80\<close> by (simp add: r_def RuneError_def)
    qed
    then have "\<not> special (s ! 0)" using special_ascii [of "s ! 0"] by (auto simp: special_def)
    moreover have "escapeRune tab r w (s ! 0) =
        [bslash, of_char CHR ''x'', lowerhex ! unat (drop_bit 4 (s ! 0)), lowerhex ! unat (s ! 0 AND 0xF)]"
      using True by (simp add: escapeRune_def)
    ultimately show ?thesis using True
      by (simp only: escapedChars_hex) (simp add: t1 special_def dquote_def bslash_def)
  next
    case False
    then have ok: "\<not> (r = RuneError \<and> w = 1)" by auto
    note v = decode_valid [OF assms(1) d ok]
    show ?thesis
    proof (cases "r = uint dquote \<or> r = uint bslash")
      case True
      then have "r < 0x80" by (auto simp: dquote_def bslash_def)
      then have w1: "w = 1" and r: "r = uint (s ! 0)" using v by auto
      have sp: "special (s ! 0)" using True r by (auto simp: special_def word_uint_eq_iff)
      have "escapeRune tab r w (s ! 0) = [bslash, s ! 0]"
        using True False r by (auto simp: escapeRune_def)
      then show ?thesis using sp w1
        by (simp only: escapedChars_two) (simp add: t1)
    next
      case ns: False
      have "r < 2 ^ 32" using v by (simp add: MaxRune_def)
      from EncodeRune_no_quote [OF _ this] ns v
      have nq: "dquote \<notin> set (take w s)" "bslash \<notin> set (take w s)" by auto
      then have nosp: "filter special (take w s) = []" by (auto simp: special_def filter_empty_conv)
      have enc: "escapedChars (EncodeRune r @ rest) = escapedChars rest"
        using v nq by (simp add: escapedChars_plain)
      have "filter special (escapedChars (escapeRune tab r w (s ! 0) @ rest))
           = filter special (escapedChars rest)"
        unfolding escapeRune_def using False ns enc
        by (simp only: escapedChars_hex escapedChars_two escapedChars_digits if_False if_True
              split: if_split)
           (simp add: special_def dquote_def bslash_def)
      then show ?thesis by (simp add: nosp)
    qed
  qed
qed

lemma specials_kept: "filter special (escapedChars (appendQuoted tab [] s)) = filter special s"
proof (induction "length s" arbitrary: s rule: less_induct)
  case less
  show ?case
  proof (cases "s = []")
    case True
    then show ?thesis by (simp add: appendQuoted_Nil)
  next
    case False
    define w where "w = snd (headRune s)"
    have len: "length (drop w s) < length s"
      using headRune_width [OF False] False by (simp add: w_def)
    have "filter special (escapedChars (appendQuoted tab [] s))
        = filter special (take w s) @ filter special (escapedChars (appendQuoted tab [] (drop w s)))"
      using step_specials [OF False, of tab "appendQuoted tab [] (drop w s)"]
      by (simp add: appendQuoted_unfold [OF False] w_def)
    also have "\<dots> = filter special (take w s) @ filter special (drop w s)"
      by (simp only: less [OF len])
    also have "\<dots> = filter special s"
      by (simp only: filter_append [symmetric] append_take_drop_id)
    finally show ?thesis .
  qed
qed




text \<open>
  A table for the concrete runs below: it marks no rune beyond Latin-1 as printable. The
  runs use ASCII and Latin-1 only, where \<^verbatim>\<open>IsPrint\<close> does not consult the tables.
\<close>

definition latin1Only :: "rune \<Rightarrow> bool" where
  "latin1Only r = False"

lemma appendQuoted_ascii:
  "uint c < 0x80 \<Longrightarrow>
   appendQuoted tab buf (c # s) = appendQuoted tab (buf @ escapeRune tab (uint c) 1 c) s"
  by (subst appendQuoted_step) (simp_all add: headRune_ascii)

lemma escape_newline: "escapeRune tab 10 w 10 = [bslash, of_char CHR ''n'']"
  by (simp add: escapeRune_def RuneError_def dquote_def bslash_def IsPrint_def)

lemma quote_newline:
  "appendQuoted tab [] [dquote, 0x0A] = [bslash, dquote, bslash, of_char CHR ''n'']"
  using appendQuoted_ascii [of "0x0A" tab "[bslash, dquote]" "[]"]
  by (simp add: appendQuoted_special appendQuoted_Nil escape_newline)

text \<open>
  Claim C5 as stated fails: the string made of a double quote and a newline holds one
  special character, and its escaped form holds two backslash-escaped characters, the
  double quote and the \<open>n\<close> of the newline's mnemonic.
\<close>

theorem escaped_count_counterexample:
  "special dquote
   \<and> length (escapedChars (appendQuoted latin1Only [] [dquote, 0x0A])) = 2
   \<and> length (filter special [dquote, 0x0A]) = 1"
  unfolding quote_newline by (simp add: special_def dquote_def bslash_def)

text \<open>
  Claim C5, amended. Wherever a double quote or a backslash stands in the input, the
  output holds that byte behind exactly one backslash, between the escaped text before
  it and the escaped text after it; and the number of backslash-escaped double quotes and
  backslashes in the output is the number of double quotes and backslashes in the input.
\<close>

theorem special_chars_escaped:
  "(c = dquote \<or> c = bslash \<longrightarrow>
      appendQuoted tab buf (a @ c # b)
        = appendQuoted tab buf a @ [bslash, c] @ appendQuoted tab [] b)
   \<and> length (filter special (escapedChars (appendQuoted tab [] s))) = length (filter special s)"
proof
  show "c = dquote \<or> c = bslash \<longrightarrow>
      appendQuoted tab buf (a @ c # b)
        = appendQuoted tab buf a @ [bslash, c] @ appendQuoted tab [] b"
  proof
    assume c: "c = dquote \<or> c = bslash"
    have "appendQuoted tab buf (a @ c # b) = buf @ appendQuoted tab [] (a @ c # b)"
      by (rule appendQuoted_buf)
    also have "\<dots> = buf @ appendQuoted tab [] a @ [bslash, c] @ appendQuoted tab [] b"
      by (simp only: special_in_context [OF c])
    also have "\<dots> = appendQuoted tab buf a @ [bslash, c] @ appendQuoted tab [] b"
      using appendQuoted_buf [of tab buf a] by simp
    finally show "appendQuoted tab buf (a @ c # b)
        = appendQuoted tab buf a @ [bslash, c] @ appendQuoted tab [] b" .
  qed
  show "length (filter special (escapedChars (appendQuoted tab [] s))) = length (filter special s)"
    by (simp only: specials_kept)
qed

theorem special_chars_escaped_witness:
  "(dquote = dquote \<or> dquote = bslash)
   \<and> appendQuoted latin1Only [] (bytes ''a'' @ dquote # [0x0A])
       = bytes ''a'' @ [bslash, dquote] @ [bslash, of_char CHR ''n'']
   \<and> length (filter special (escapedChars (appendQuoted latin1Only [] [dquote, 0x0A]))) = 1"
proof -
  have a: "appendQuoted latin1Only [] (bytes ''a'') = bytes ''a''"
    by (simp add: bytes_def appendQuoted_print_ascii appendQuoted_Nil dquote_def bslash_def)
  have n: "appendQuoted latin1Only [] [0x0A] = [bslash, of_char CHR ''n'']"
    using appendQuoted_ascii [of "0x0A" latin1Only "[]" "[]"]
    by (simp add: appendQuoted_Nil escape_newline)
  from special_chars_escaped [of dquote latin1Only "[]" "bytes ''a''" "[0x0A]" "[dquote, 0x0A]"]
  show ?thesis unfolding a n by (simp add: special_def dquote_def bslash_def)
qed

section \<open>Evaluating the library calls on the example\<close>

lemmas float_eval = float64_of_int_def float64_div_def roundFloat64_def floorLog2_def pow2_def
  roundHalfEven_def bitLength.simps formatFixed3_def digitsNat.simps digit_def bytes_def Let_def

lemma prettyDuration_12ms: "prettyDuration 12000000 = bytes ''12.000ms''"
  by (simp add: prettyDuration_def float_eval)

lemma prettyDuration_half_ms: "prettyDuration 500000 = bytes ''0.500ms''"
  by (simp add: prettyDuration_def float_eval)

lemma prettyDuration_zero: "prettyDuration 0 = bytes ''0.000ms''"
  by (simp add: prettyDuration_def float_eval)


lemma Itoa_200: "Itoa 200 = bytes ''200''" "Itoa 13 = bytes ''13''" "Itoa 0 = bytes ''0''"
  by (simp_all add: Itoa_def digitsNat.simps digit_def bytes_def)

lemma SplitHostPort_loopback: "SplitHostPort (bytes ''[::1]:54321'') = Inr (bytes ''::1'', bytes ''54321'')"
  by (simp add: SplitHostPort_def last_index_def bytes_def Let_def)




lemma digits_small:
  "digitsNat 2 = bytes ''2''" "digitsNat 20 = bytes ''20''" "digitsNat 7 = bytes ''7''"
  "digitsNat 27 = bytes ''27''" "digitsNat 2017 = bytes ''2017''" "digitsNat 1 = bytes ''1''"
  "digitsNat 0 = bytes ''0''" "digitsNat (Suc 0) = bytes ''1''"
  by (simp_all add: digitsNat.simps digit_def bytes_def)

lemma appendInt_vals:
  "appendInt 2 2 = bytes ''02''" "appendInt 2017 4 = bytes ''2017''" "appendInt 20 2 = bytes ''20''"
  "appendInt 7 2 = bytes ''07''" "appendInt 27 2 = bytes ''27''" "appendInt 1 2 = bytes ''01''"
  "appendInt 0 2 = bytes ''00''"
  by (simp_all add: appendInt_def digits_small Let_def) (simp_all add: bytes_def)

lemma quo_vals: "quo 3600 60 = 60" "quo 60 60 = 1" "rem 60 60 = 0"
  by (simp_all add: quo_def rem_def)

lemma FormatTime_example:
  assumes "Year t = 2017" "Month t = January" "Day t = 2" "Hour t = 20" "Minute t = 7"
    "Second t = 27" "Offset t = 3600"
  shows "FormatTime t = bytes ''02/Jan/2017:20:07:27 +0100''"
  unfolding FormatTime_def assms Let_def
  by (simp add: appendInt_vals quo_vals) (simp add: bytes_def)

lemma appendQuoted_plain_ascii:
  "\<forall>c\<in>set s. 0x20 \<le> uint c \<and> uint c \<le> 0x7E \<and> c \<noteq> dquote \<and> c \<noteq> bslash \<Longrightarrow>
   appendQuoted tab buf s = buf @ s"
proof (induction s arbitrary: buf)
  case Nil
  then show ?case by (simp add: appendQuoted_Nil)
next
  case (Cons c s)
  then show ?case by (simp add: appendQuoted_print_ascii)
qed

lemma appendQuoted_slash: "appendQuoted tab buf (bytes ''/'') = buf @ bytes ''/''"
  by (rule appendQuoted_plain_ascii) (simp add: bytes_def dquote_def bslash_def)

lemma appendQuoted_curl: "appendQuoted tab buf (bytes ''curl/7.51.0'') = buf @ bytes ''curl/7.51.0''"
  by (rule appendQuoted_plain_ascii) (simp add: bytes_def dquote_def bslash_def)

lemma appendQuoted_example_host:
  "appendQuoted tab buf (bytes ''example.com:443'') = buf @ bytes ''example.com:443''"
  by (rule appendQuoted_plain_ascii) (simp add: bytes_def dquote_def bslash_def)



section \<open>Common and Combined lines\<close>

lemma empty_unchanged: "appendQuoted tab buf [] = buf"
  by (rule appendQuoted_Nil)

text \<open>
  Claim C2. What the Combined writer hands to the sink is the Common line of the same
  inputs, then a space and the escaped referrer between double quotes, then a space and
  the escaped user agent between double quotes, then the newline; the Common writer
  hands over the Common line and the newline. A request without the header has the empty
  string for the value, the escaping primitive run on it appends nothing, and with both
  headers missing the line ends with two empty quoted fields.
\<close>

theorem combined_extends_common:
  "writeCombinedLog tab w req ts status size' delay =
     Write w (buildCommonLogLine tab req ts status size' delay
              @ bytes '' '' @ [dquote] @ appendQuoted tab [] (Referer req) @ [dquote]
              @ bytes '' '' @ [dquote] @ appendQuoted tab [] (UserAgent req) @ [dquote]
              @ [0x0A])
   \<and> writeCommonLog tab w req ts status size' delay =
     Write w (buildCommonLogLine tab req ts status size' delay @ [0x0A])
   \<and> (Header req (bytes ''Referer'') = None \<longrightarrow>
        Referer req = [] \<and> appendQuoted tab buf (Referer req) = buf)
   \<and> (Header req (bytes ''User-Agent'') = None \<longrightarrow>
        UserAgent req = [] \<and> appendQuoted tab buf (UserAgent req) = buf)
   \<and> (Header req (bytes ''Referer'') = None \<and> Header req (bytes ''User-Agent'') = None \<longrightarrow>
        writeCombinedLog tab w req ts status size' delay =
          Write w (buildCommonLogLine tab req ts status size' delay
                   @ bytes '' '' @ [dquote, dquote] @ bytes '' '' @ [dquote, dquote] @ [0x0A]))"
proof -
  have a: "\<And>b s. appendQuoted tab b s = b @ appendQuoted tab [] s" by (rule appendQuoted_buf)
  have 1: "writeCombinedLog tab w req ts status size' delay =
     Write w (buildCommonLogLine tab req ts status size' delay
              @ bytes '' '' @ [dquote] @ appendQuoted tab [] (Referer req) @ [dquote]
              @ bytes '' '' @ [dquote] @ appendQuoted tab [] (UserAgent req) @ [dquote]
              @ [0x0A])"
    unfolding writeCombinedLog_def Let_def
    by (subst a, subst (2) a) simp
  have 2: "writeCommonLog tab w req ts status size' delay =
     Write w (buildCommonLogLine tab req ts status size' delay @ [0x0A])"
    by (simp add: writeCommonLog_def)
  have 3: "Header req (bytes ''Referer'') = None \<Longrightarrow> Referer req = []"
    by (simp add: Referer_def Header_Get_def)
  have 4: "Header req (bytes ''User-Agent'') = None \<Longrightarrow> UserAgent req = []"
    by (simp add: UserAgent_def Header_Get_def)
  show ?thesis
    using 2 3 4 by (simp add: 1 appendQuoted_Nil)
qed


text \<open>
  The requests of the examples: the request of the README (\<^verbatim>\<open>curl\<close> asking for \<open>/\<close>),
  the same without headers, a \<^verbatim>\<open>CONNECT\<close> over HTTP/2 and the same with no host.
\<close>

definition exampleTime :: Time where
  "exampleTime = \<lparr>Year = 2017, Month = January, Day = 2, Hour = 20, Minute = 7, Second = 27,
     Offset = 3600\<rparr>"

definition exampleURL :: URL where
  "exampleURL = \<lparr>Scheme = [], Opaque = [], User = None, EscapedPath = bytes ''/'',
     ForceQuery = False, RawQuery = []\<rparr>"

definition exampleRequest :: Request where
  "exampleRequest = \<lparr>Method = bytes ''GET'', URL = exampleURL, Proto = bytes ''HTTP/1.1'',
     ProtoMajor = 1,
     Header = [bytes ''User-Agent'' \<mapsto> [bytes ''curl/7.51.0''], bytes ''Accept'' \<mapsto> [bytes ''*/*'']],
     Host = bytes ''localhost:3000'', RemoteAddr = bytes ''[::1]:54321'',
     RequestURI = bytes ''/''\<rparr>"

definition bareRequest :: Request where
  "bareRequest = exampleRequest\<lparr>Header := Map.empty\<rparr>"

definition connectRequest :: Request where
  "connectRequest = \<lparr>Method = bytes ''CONNECT'', URL = exampleURL, Proto = bytes ''HTTP/2.0'',
     ProtoMajor = 2, Header = Map.empty, Host = bytes ''example.com:443'',
     RemoteAddr = bytes ''[::1]:54321'', RequestURI = bytes ''/other''\<rparr>"

definition connectNoHost :: Request where
  "connectNoHost = connectRequest\<lparr>Host := [], RequestURI := []\<rparr>"

lemma GET_not_CONNECT: "bytes ''GET'' \<noteq> bytes ''CONNECT''"
  by (simp add: bytes_def)

text \<open>
  Claim C1. For a \<^verbatim>\<open>GET\<close> of \<open>/\<close> over \<^verbatim>\<open>HTTP/1.1\<close> from the peer \<^verbatim>\<open>[::1]:54321\<close>,
  without user-info, with status 200, 13 bytes, 12 ms, started on 2 January 2017 at
  20:07:27 in the zone +0100, no referrer and the user agent \<^verbatim>\<open>curl/7.51.0\<close>, the
  Combined writer adds to the sink one byte string: the line of the README with the
  latency \<^verbatim>\<open>12.000ms\<close>, followed by one newline.
\<close>

theorem combined_line_example:
  assumes "Method req = bytes ''GET''" and "RequestURI req = bytes ''/''"
    and "Proto req = bytes ''HTTP/1.1''" and "RemoteAddr req = bytes ''[::1]:54321''"
    and "User (URL req) = None" and "Referer req = []"
    and "UserAgent req = bytes ''curl/7.51.0''"
    and "Year ts = 2017" and "Month ts = January" and "Day ts = 2" and "Hour ts = 20"
    and "Minute ts = 7" and "Second ts = 27" and "Offset ts = 3600"
  shows "writeCombinedLog tab w req ts 200 13 12000000 =
     w @ [bytes ''::1 - - [02/Jan/2017:20:07:27 +0100] '' @ [dquote]
          @ bytes ''GET / HTTP/1.1'' @ [dquote] @ bytes '' 200 13 12.000ms '' @ [dquote, dquote]
          @ bytes '' '' @ [dquote] @ bytes ''curl/7.51.0'' @ [dquote] @ [0x0A]]"
proof -
  have t: "FormatTime ts = bytes ''02/Jan/2017:20:07:27 +0100''"
    by (rule FormatTime_example) (rule assms)+
  have line: "buildCommonLogLine tab req ts 200 13 12000000 =
      bytes ''::1 - - [02/Jan/2017:20:07:27 +0100] '' @ [dquote]
          @ bytes ''GET / HTTP/1.1'' @ [dquote] @ bytes '' 200 13 12.000ms''"
    unfolding buildCommonLogLine_def Let_def assms(1-5) t
    by (simp add: GET_not_CONNECT SplitHostPort_loopback appendQuoted_slash Itoa_200
          prettyDuration_12ms)
       (simp add: bytes_def)
  show ?thesis
    unfolding writeCombinedLog_def Let_def line assms(6,7) Write_def
    by (simp add: appendQuoted_Nil appendQuoted_curl) (simp add: bytes_def)
qed


lemma exampleTime_fields:
  "Year exampleTime = 2017" "Month exampleTime = January" "Day exampleTime = 2"
  "Hour exampleTime = 20" "Minute exampleTime = 7" "Second exampleTime = 27"
  "Offset exampleTime = 3600"
  by (simp_all add: exampleTime_def)

lemma FormatTime_exampleTime: "FormatTime exampleTime = bytes ''02/Jan/2017:20:07:27 +0100''"
  by (rule FormatTime_example) (rule exampleTime_fields)+

theorem combined_line_example_witness:
  "writeCombinedLog latin1Only [] exampleRequest exampleTime 200 13 12000000 =
     [bytes ''::1 - - [02/Jan/2017:20:07:27 +0100] '' @ [dquote]
          @ bytes ''GET / HTTP/1.1'' @ [dquote] @ bytes '' 200 13 12.000ms '' @ [dquote, dquote]
          @ bytes '' '' @ [dquote] @ bytes ''curl/7.51.0'' @ [dquote] @ [0x0A]]"
proof -
  have h: "Method exampleRequest = bytes ''GET''" "RequestURI exampleRequest = bytes ''/''"
    "Proto exampleRequest = bytes ''HTTP/1.1''" "RemoteAddr exampleRequest = bytes ''[::1]:54321''"
    "User (URL exampleRequest) = None"
    by (simp_all add: exampleRequest_def exampleURL_def)
  have r: "Referer exampleRequest = []"
    by (simp add: Referer_def Header_Get_def exampleRequest_def bytes_def)
  have u: "UserAgent exampleRequest = bytes ''curl/7.51.0''"
    by (simp add: UserAgent_def Header_Get_def exampleRequest_def bytes_def)
  from combined_line_example [OF h r u exampleTime_fields, of latin1Only "[]"]
  show ?thesis by simp
qed

theorem combined_extends_common_witness:
  "Header bareRequest (bytes ''Referer'') = None \<and> Header bareRequest (bytes ''User-Agent'') = None
   \<and> Referer bareRequest = [] \<and> UserAgent bareRequest = []
   \<and> writeCombinedLog latin1Only [] bareRequest exampleTime 200 13 12000000 =
       [buildCommonLogLine latin1Only bareRequest exampleTime 200 13 12000000
          @ bytes '' '' @ [dquote, dquote] @ bytes '' '' @ [dquote, dquote] @ [0x0A]]"
proof -
  have h: "Header bareRequest (bytes ''Referer'') = None"
    "Header bareRequest (bytes ''User-Agent'') = None"
    by (simp_all add: bareRequest_def)
  from combined_extends_common [of latin1Only "[]" bareRequest exampleTime 200 13 12000000 "[]"] h
  show ?thesis by (simp add: Write_def appendQuoted_Nil)
qed

text \<open>
  Claim C3 as stated fails on a \<^verbatim>\<open>CONNECT\<close> request over HTTP/2 whose host field is
  empty: the target of the line is then rebuilt from the parsed URL.
\<close>

theorem connect_empty_host_counterexample:
  "ProtoMajor connectNoHost = 2 \<and> Method connectNoHost = bytes ''CONNECT''
   \<and> Host connectNoHost = []
   \<and> buildCommonLogLine latin1Only connectNoHost exampleTime 200 0 0 =
       bytes ''::1 - - [02/Jan/2017:20:07:27 +0100] '' @ [dquote]
         @ bytes ''CONNECT / HTTP/2.0'' @ [dquote] @ bytes '' 200 0 0.000ms''
   \<and> buildCommonLogLine latin1Only connectNoHost exampleTime 200 0 0 \<noteq>
       bytes ''::1 - - [02/Jan/2017:20:07:27 +0100] '' @ [dquote]
         @ bytes ''CONNECT '' @ appendQuoted latin1Only [] (Host connectNoHost)
         @ bytes '' HTTP/2.0'' @ [dquote] @ bytes '' 200 0 0.000ms''"
proof -
  have f: "ProtoMajor connectNoHost = 2" "Method connectNoHost = bytes ''CONNECT''"
    "Host connectNoHost = []" "RequestURI connectNoHost = []"
    "RemoteAddr connectNoHost = bytes ''[::1]:54321''" "Proto connectNoHost = bytes ''HTTP/2.0''"
    "URL connectNoHost = exampleURL"
    by (simp_all add: connectNoHost_def connectRequest_def)
  have u: "URL_RequestURI exampleURL = bytes ''/''" "User exampleURL = None"
    by (simp_all add: URL_RequestURI_def exampleURL_def bytes_def)
  have line: "buildCommonLogLine latin1Only connectNoHost exampleTime 200 0 0 =
       bytes ''::1 - - [02/Jan/2017:20:07:27 +0100] '' @ [dquote]
         @ bytes ''CONNECT / HTTP/2.0'' @ [dquote] @ bytes '' 200 0 0.000ms''"
    unfolding buildCommonLogLine_def Let_def f u FormatTime_exampleTime
    by (simp add: SplitHostPort_loopback appendQuoted_slash Itoa_200 prettyDuration_zero)
       (simp add: bytes_def)
  show ?thesis
    unfolding line f by (simp add: appendQuoted_Nil bytes_def)
qed

text \<open>
  Claim C3, amended. For a request of major version 2 with the method \<^verbatim>\<open>CONNECT\<close>, the
  target of the line is the escaped host field when that field is not empty, whatever
  the request URI and the parsed URL hold; when the host field is empty, the target is
  the request URI rebuilt from the parsed URL.
\<close>

theorem connect_target_is_host:
  assumes "ProtoMajor req = 2" and "Method req = bytes ''CONNECT''"
  shows "buildCommonLogLine tab req ts status size' delay =
      (case SplitHostPort (RemoteAddr req) of Inl err \<Rightarrow> RemoteAddr req | Inr hp \<Rightarrow> fst hp)
      @ bytes '' - ''
      @ (case User (URL req) of None \<Rightarrow> bytes ''-''
         | Some u \<Rightarrow> if Username u \<noteq> [] then Username u else bytes ''-'')
      @ bytes '' ['' @ FormatTime ts @ bytes ''] '' @ [dquote]
      @ bytes ''CONNECT ''
      @ appendQuoted tab [] (if Host req \<noteq> [] then Host req else URL_RequestURI (URL req))
      @ bytes '' '' @ Proto req @ [dquote]
      @ bytes '' '' @ Itoa status @ bytes '' '' @ Itoa size' @ bytes '' '' @ prettyDuration delay"
  unfolding buildCommonLogLine_def Let_def
  by (subst appendQuoted_buf) (simp add: assms bytes_def)

theorem connect_target_is_host_witness:
  "ProtoMajor connectRequest = 2 \<and> Method connectRequest = bytes ''CONNECT''
   \<and> Host connectRequest = bytes ''example.com:443'' \<and> RequestURI connectRequest = bytes ''/other''
   \<and> buildCommonLogLine latin1Only connectRequest exampleTime 200 0 0 =
       bytes ''::1 - - [02/Jan/2017:20:07:27 +0100] '' @ [dquote]
         @ bytes ''CONNECT example.com:443 HTTP/2.0'' @ [dquote] @ bytes '' 200 0 0.000ms''
   \<and> Host (connectRequest\<lparr>Host := []\<rparr>) = []
   \<and> buildCommonLogLine latin1Only (connectRequest\<lparr>Host := []\<rparr>) exampleTime 200 0 0 =
       bytes ''::1 - - [02/Jan/2017:20:07:27 +0100] '' @ [dquote]
         @ bytes ''CONNECT / HTTP/2.0'' @ [dquote] @ bytes '' 200 0 0.000ms''"
proof -
  have f: "ProtoMajor connectRequest = 2" "Method connectRequest = bytes ''CONNECT''"
    "Host connectRequest = bytes ''example.com:443''" "RequestURI connectRequest = bytes ''/other''"
    "RemoteAddr connectRequest = bytes ''[::1]:54321''" "Proto connectRequest = bytes ''HTTP/2.0''"
    "User (URL connectRequest) = None" "URL connectRequest = exampleURL"
    by (simp_all add: connectRequest_def exampleURL_def)
  have u: "URL_RequestURI exampleURL = bytes ''/''" "User exampleURL = None"
    by (simp_all add: URL_RequestURI_def exampleURL_def bytes_def)
  have ne: "Host connectRequest \<noteq> []" by (simp add: f bytes_def)
  have 1: "buildCommonLogLine latin1Only connectRequest exampleTime 200 0 0 =
       bytes ''::1 - - [02/Jan/2017:20:07:27 +0100] '' @ [dquote]
         @ bytes ''CONNECT example.com:443 HTTP/2.0'' @ [dquote] @ bytes '' 200 0 0.000ms''"
    unfolding connect_target_is_host [OF f(1,2)] f(5-7) FormatTime_exampleTime
    by (simp add: ne f(3) SplitHostPort_loopback appendQuoted_example_host [of _ "[]", simplified]
          Itoa_200 prettyDuration_zero)
       (simp add: bytes_def)
  have g: "ProtoMajor (connectRequest\<lparr>Host := []\<rparr>) = 2"
    "Method (connectRequest\<lparr>Host := []\<rparr>) = bytes ''CONNECT''"
    by (simp_all add: f)
  have 2: "buildCommonLogLine latin1Only (connectRequest\<lparr>Host := []\<rparr>) exampleTime 200 0 0 =
       bytes ''::1 - - [02/Jan/2017:20:07:27 +0100] '' @ [dquote]
         @ bytes ''CONNECT / HTTP/2.0'' @ [dquote] @ bytes '' 200 0 0.000ms''"
    unfolding connect_target_is_host [OF g] FormatTime_exampleTime
    by (simp add: f u SplitHostPort_loopback appendQuoted_slash [of _ "[]", simplified]
          Itoa_200 prettyDuration_zero)
       (simp add: bytes_def)
  show ?thesis using f 1 2 by simp
qed

section \<open>Undecodable bytes reach the output\<close>

lemma invalid_step:
  assumes "s \<noteq> []" and "DecodeRuneInString s = (RuneError, 1)"
  shows "appendQuoted tab buf s =
           buf @ [bslash, of_char CHR ''x'', lowerhex ! unat (drop_bit 4 (s ! 0)),
                  lowerhex ! unat (s ! 0 AND 0xF)]
               @ appendQuoted tab [] (drop 1 s)"
proof -
  have "appendQuoted tab buf s = buf @ appendQuoted tab [] s" by (rule appendQuoted_buf)
  also have "appendQuoted tab [] s =
      [bslash, of_char CHR ''x'', lowerhex ! unat (drop_bit 4 (s ! 0)),
       lowerhex ! unat (s ! 0 AND 0xF)] @ appendQuoted tab [] (drop 1 s)"
    by (subst appendQuoted_unfold [OF assms(1)])
       (simp add: invalid_head [OF assms] escapeRune_def)
  finally show ?thesis .
qed


lemma EncodeRune_length: "length (EncodeRune r) \<le> 4"
  by (simp add: EncodeRune_def Let_def)

lemma chunk_length:
  assumes "s \<noteq> []"
  shows "snd (headRune s) \<le> length (escapeRune tab (fst (headRune s)) (snd (headRune s)) (s ! 0))"
proof -
  obtain r w where d: "DecodeRuneInString s = (r, w)" by (cases "DecodeRuneInString s")
  have h: "headRune s = (r, w)" by (simp add: headRune_eq [OF assms] d)
  show ?thesis
  proof (cases "r = RuneError \<and> w = 1")
    case True
    then show ?thesis by (simp add: h escapeRune_def)
  next
    case False
    note v = decode_valid [OF assms d False]
    have enc: "length (EncodeRune r) = w" using v by simp
    then have w4: "w \<le> 4" using EncodeRune_length [of r] by simp
    have small: "r < 0x80 \<Longrightarrow> w = 1" using v by simp
    have "w \<le> length (escapeRune tab r w (s ! 0))"
      unfolding escapeRune_def using False enc w4 small
      by (auto simp: hexDigits_def dquote_def bslash_def)
    then show ?thesis by (simp add: h)
  qed
qed

lemma appendQuoted_length: "length s \<le> length (appendQuoted tab [] s)"
proof (induction "length s" arbitrary: s rule: less_induct)
  case less
  show ?case
  proof (cases "s = []")
    case True
    then show ?thesis by simp
  next
    case False
    define w where "w = snd (headRune s)"
    have w: "1 \<le> w" "w \<le> length s" using headRune_width [OF False] by (simp_all add: w_def)
    have len: "length (drop w s) < length s" using w by simp
    have "length s = w + length (drop w s)" using w by simp
    also have "\<dots> \<le> length (escapeRune tab (fst (headRune s)) w (s ! 0))
                 + length (appendQuoted tab [] (drop w s))"
      using chunk_length [OF False, of tab] less [OF len] by (simp add: w_def)
    also have "\<dots> = length (appendQuoted tab [] s)"
      by (simp add: appendQuoted_unfold [OF False] w_def)
    finally show ?thesis .
  qed
qed

text \<open>
  Claim C6. When the bytes at the scan position do not decode to a valid character
  (\<open>DecodeRuneInString\<close> answers \<open>(RuneError, 1)\<close>), the output is the buffer, then a
  backslash, the letter \<open>x\<close> and the two lowercase hexadecimal digits of the first byte,
  then the escaped form of the string after that single byte. The two digits determine
  the byte, and the escaped form of a string is never shorter than the string: no byte
  is dropped.
\<close>

theorem invalid_byte_escaped:
  assumes "s \<noteq> []" and "DecodeRuneInString s = (RuneError, 1)"
  shows "appendQuoted tab buf s =
           buf @ [bslash, of_char CHR ''x'', lowerhex ! unat (drop_bit 4 (s ! 0)),
                  lowerhex ! unat (s ! 0 AND 0xF)]
               @ appendQuoted tab [] (drop 1 s)
         \<and> (\<forall>b. lowerhex ! unat (drop_bit 4 b) = lowerhex ! unat (drop_bit 4 (s ! 0))
                \<and> lowerhex ! unat (b AND 0xF) = lowerhex ! unat (s ! 0 AND 0xF)
              \<longrightarrow> b = s ! 0)
         \<and> length s \<le> length (appendQuoted tab [] s)"
proof (intro conjI)
  show "appendQuoted tab buf s =
           buf @ [bslash, of_char CHR ''x'', lowerhex ! unat (drop_bit 4 (s ! 0)),
                  lowerhex ! unat (s ! 0 AND 0xF)]
               @ appendQuoted tab [] (drop 1 s)"
    by (rule invalid_step [OF assms])
  show "\<forall>b. lowerhex ! unat (drop_bit 4 b) = lowerhex ! unat (drop_bit 4 (s ! 0))
                \<and> lowerhex ! unat (b AND 0xF) = lowerhex ! unat (s ! 0 AND 0xF)
              \<longrightarrow> b = s ! 0"
    using hex_pair_inj by blast
  show "length s \<le> length (appendQuoted tab [] s)" by (rule appendQuoted_length)
qed

lemma dec_ex2: "DecodeRuneInString [0x82, 0x41] = (RuneError, 1)"
  by (simp add: DecodeRuneInString_def utf8_first_def Let_def)

theorem invalid_byte_escaped_witness:
  "[0xE2, 0x82, 0x41] \<noteq> ([] :: gostring)
   \<and> DecodeRuneInString [0xE2, 0x82, 0x41] = (RuneError, 1)
   \<and> appendQuoted latin1Only (bytes ''GET '') [0xE2, 0x82, 0x41]
       = bytes ''GET '' @ [bslash] @ bytes ''xe2'' @ [bslash] @ bytes ''x82A''"
proof -
  have a: "appendQuoted latin1Only [] [0x41] = [0x41]"
    by (simp add: appendQuoted_print_ascii appendQuoted_Nil dquote_def bslash_def)
  have b: "appendQuoted latin1Only [] [0x82, 0x41] = [bslash] @ bytes ''x82A''"
    using invalid_byte_escaped [of "[0x82, 0x41]" latin1Only "[]"] dec_ex2
    by (simp add: a lowerhex_def bytes_def drop_bit_eq_div)
  show ?thesis
    using invalid_byte_escaped [of "[0xE2, 0x82, 0x41]" latin1Only "bytes ''GET ''"] dec_ex
    by (simp add: b lowerhex_def bytes_def drop_bit_eq_div)
qed

section \<open>Code points above the maximum\<close>






section \<open>The latency field\<close>

lemma bitLength_bounds: "0 < n \<Longrightarrow> 2 ^ (bitLength n - 1) \<le> n \<and> n < 2 ^ bitLength n"
proof (induction n rule: bitLength.induct)
  case (1 n)
  show ?case
  proof (cases "n div 2 = 0")
    case True
    with "1.prems" have "n = 1" by (simp add: div_eq_0_iff) 
    then show ?thesis by (simp add: bitLength.simps)
  next
    case False
    then have m: "0 < n div 2" by simp
    from "1.IH" [OF _ m] "1.prems"
    have ih: "2 ^ (bitLength (n div 2) - 1) \<le> n div 2" "n div 2 < 2 ^ bitLength (n div 2)" by simp_all
    have b: "bitLength n = Suc (bitLength (n div 2))" using "1.prems" by (subst bitLength.simps) simp
    have pos: "0 < bitLength (n div 2)" using m by (subst bitLength.simps) simp
    then have p: "(2::nat) ^ bitLength (n div 2) = 2 * 2 ^ (bitLength (n div 2) - 1)"
      by (cases "bitLength (n div 2)") simp_all
    have "2 * (n div 2) \<le> n" by simp
    then have lo: "2 ^ bitLength (n div 2) \<le> n" using ih(1) p by linarith
    have "n < 2 * (n div 2) + 2" by presburger
    then have hi: "n < 2 * 2 ^ bitLength (n div 2)" using ih(2) by linarith
    show ?thesis using lo hi by (simp add: b)
  qed
qed

lemma pow2_powi: "pow2 e = 2 powi e"
  by (cases "0 \<le> e") (simp_all add: pow2_def power_int_def field_simps)

lemma pow2_pos: "0 < pow2 e"
  by (simp add: pow2_powi)

lemma pow2_add: "pow2 (a + b) = pow2 a * pow2 b"
  by (simp add: pow2_powi power_int_add)

lemma pow2_nat: "pow2 (int n) = 2 ^ n"
  by (simp add: pow2_powi)

lemma pow2_neg: "pow2 (- e) = 1 / pow2 e"
  by (simp add: pow2_powi power_int_minus_divide)

lemma roundHalfEven_error: "\<bar>of_int (roundHalfEven y) - y\<bar> \<le> 1 / 2"
proof -
  have "of_int \<lfloor>y\<rfloor> \<le> y" "y < of_int \<lfloor>y\<rfloor> + 1" by linarith+
  then show ?thesis by (auto simp: roundHalfEven_def Let_def)
qed

lemma roundHalfEven_ge: "of_int n \<le> y \<Longrightarrow> n \<le> roundHalfEven y"
proof -
  assume "of_int n \<le> y"
  then have "n \<le> \<lfloor>y\<rfloor>" by (simp add: le_floor_iff)
  then show ?thesis by (auto simp: roundHalfEven_def Let_def)
qed

lemma roundHalfEven_le: "y \<le> of_int n \<Longrightarrow> roundHalfEven y \<le> n"
proof -
  assume a: "y \<le> of_int n"
  show ?thesis
  proof (cases "y = of_int \<lfloor>y\<rfloor>")
    case True
    then have "y - of_int \<lfloor>y\<rfloor> = 0" by simp
    then have "roundHalfEven y = \<lfloor>y\<rfloor>" by (simp add: roundHalfEven_def Let_def)
    moreover have "\<lfloor>y\<rfloor> \<le> n" using a by (simp add: floor_le_iff)
    ultimately show ?thesis by simp
  next
    case False
    have "of_int \<lfloor>y\<rfloor> \<le> y" by linarith
    with False have "of_int \<lfloor>y\<rfloor> < y" by linarith
    with a have "(of_int \<lfloor>y\<rfloor> :: rat) < of_int n" by linarith
    then have "\<lfloor>y\<rfloor> < n" by simp
    then show ?thesis by (auto simp: roundHalfEven_def Let_def)
  qed
qed


lemma floorLog2_bounds:
  assumes "0 < x"
  shows "pow2 (floorLog2 x) \<le> x \<and> x < pow2 (floorLog2 x + 1)"
proof (cases "1 \<le> x")
  case True
  define n where "n = nat \<lfloor>x\<rfloor>"
  have n: "0 < n" "of_nat n \<le> x" "x < of_nat n + 1"
  proof -
    have "1 \<le> \<lfloor>x\<rfloor>" using True by (simp add: le_floor_iff)
    then show "0 < n" by (simp add: n_def)
    have "0 \<le> \<lfloor>x\<rfloor>" using \<open>1 \<le> \<lfloor>x\<rfloor>\<close> by simp
    then have "(of_nat n :: rat) = of_int \<lfloor>x\<rfloor>" by (simp add: n_def)
    then show "of_nat n \<le> x" "x < of_nat n + 1" by linarith+
  qed
  define b where "b = bitLength n"
  from bitLength_bounds [OF n(1)] have bb: "2 ^ (b - 1) \<le> n" "n < 2 ^ b" by (simp_all add: b_def)
  have bpos: "0 < b" using n(1) unfolding b_def by (subst bitLength.simps) simp
  have "floorLog2 x = int (b - 1)" "floorLog2 x + 1 = int b"
    using True bpos by (simp_all add: floorLog2_def n_def b_def)
  then have e: "pow2 (floorLog2 x) = 2 ^ (b - 1)" "pow2 (floorLog2 x + 1) = 2 ^ b"
    by (simp_all only: pow2_nat)
  have "(2::rat) ^ (b - 1) \<le> of_nat n" using bb(1) by (metis of_nat_le_iff of_nat_numeral of_nat_power)
  then have lo: "2 ^ (b - 1) \<le> x" using n(2) by linarith
  have "n + 1 \<le> 2 ^ b" using bb(2) by simp
  then have "(of_nat (n + 1) :: rat) \<le> 2 ^ b" by (metis of_nat_le_iff of_nat_numeral of_nat_power)
  then have hi: "x < 2 ^ b" using n(3) by simp
  show ?thesis unfolding e using lo hi by simp
next
  case False
  define y where "y = 1 / x"
  have y: "1 < y" using assms False by (simp add: y_def)
  define n where "n = nat (\<lceil>y\<rceil> - 1)"
  have "2 \<le> \<lceil>y\<rceil>" using y by (simp add: le_ceiling_iff) 
  then have c: "(of_nat n :: rat) = of_int \<lceil>y\<rceil> - 1" "0 < n" by (simp_all add: n_def)
  have n: "of_nat n < y" "y \<le> of_nat n + 1" unfolding c by linarith+
  define b where "b = bitLength n"
  from bitLength_bounds [OF c(2)] have bb: "2 ^ (b - 1) \<le> n" "n < 2 ^ b" by (simp_all add: b_def)
  have bpos: "0 < b" using c(2) unfolding b_def by (subst bitLength.simps) simp
  have "floorLog2 x = - int b" "floorLog2 x + 1 = - int (b - 1)"
    using False bpos by (simp_all add: floorLog2_def n_def b_def y_def)
  then have e: "pow2 (floorLog2 x) = 1 / 2 ^ b" "pow2 (floorLog2 x + 1) = 1 / 2 ^ (b - 1)"
    by (simp_all only: pow2_neg pow2_nat)
  have "(2::rat) ^ (b - 1) \<le> of_nat n" using bb(1) by (metis of_nat_le_iff of_nat_numeral of_nat_power)
  then have lo: "2 ^ (b - 1) < y" using n(1) by linarith
  have "n + 1 \<le> 2 ^ b" using bb(2) by simp
  then have "(of_nat (n + 1) :: rat) \<le> 2 ^ b" by (metis of_nat_le_iff of_nat_numeral of_nat_power)
  then have hi: "y \<le> 2 ^ b" using n(2) by simp
  have x: "x = 1 / y" using assms by (simp add: y_def)
  have ypos: "0 < y" using y by simp
  have 1: "1 / 2 ^ b \<le> x" unfolding x using hi ypos by (simp add: frac_le)
  have 2: "x < 1 / 2 ^ (b - 1)" unfolding x using lo by (simp add: frac_less2)
  show ?thesis unfolding e using 1 2 by simp
qed


lemma roundFloat64_props:
  assumes "x \<noteq> 0"
  shows "\<bar>roundFloat64 x - x\<bar> \<le> \<bar>x\<bar> / 2 ^ 53"
    and "0 < x \<Longrightarrow> 0 < roundFloat64 x"
    and "x < 0 \<Longrightarrow> roundFloat64 x < 0"
proof -
  define L where "L = floorLog2 \<bar>x\<bar>"
  define s where "s = pow2 (L - 52)"
  define y where "y = x / s"
  define r where "r = roundHalfEven y"
  have spos: "0 < s" by (simp add: s_def pow2_pos)
  have res: "roundFloat64 x = of_int r * s"
    using assms by (simp add: roundFloat64_def Let_def L_def s_def y_def r_def)
  have "0 < \<bar>x\<bar>" using assms by simp
  from floorLog2_bounds [OF this] have lb: "pow2 L \<le> \<bar>x\<bar>" by (simp add: L_def)
  have "pow2 L = pow2 (L - 52) * pow2 52" using pow2_add [of "L - 52" 52] by simp
  also have "pow2 52 = 2 ^ 52" using pow2_nat [of 52] by simp
  finally have sL: "s * 2 ^ 52 \<le> \<bar>x\<bar>" using lb by (simp add: s_def)
  have xs: "x = y * s" using spos by (simp add: y_def)
  have "of_int r * s - x = (of_int r - y) * s" by (simp add: xs algebra_simps)
  then have "\<bar>of_int r * s - x\<bar> = \<bar>of_int r - y\<bar> * \<bar>s\<bar>" by (simp only: abs_mult)
  then have "\<bar>of_int r * s - x\<bar> = \<bar>of_int r - y\<bar> * s" using spos by simp
  also have "\<dots> \<le> (1 / 2) * s"
    using roundHalfEven_error [of y] spos unfolding r_def by (intro mult_right_mono) simp_all
  also have "\<dots> \<le> \<bar>x\<bar> / 2 ^ 53" using sL by simp
  finally show "\<bar>roundFloat64 x - x\<bar> \<le> \<bar>x\<bar> / 2 ^ 53" by (simp add: res)
  have big: "1 \<le> \<bar>y\<bar>"
  proof -
    have "s \<le> s * 2 ^ 52" using spos by simp
    then have "s \<le> \<bar>x\<bar>" using sL by linarith
    then show ?thesis using spos by (simp add: y_def)
  qed
  show "0 < roundFloat64 x" if "0 < x"
  proof -
    have "0 < y" using that spos by (simp add: y_def)
    then have "of_int 1 \<le> y" using big by simp
    from roundHalfEven_ge [OF this] have "1 \<le> r" by (simp add: r_def)
    then show ?thesis using spos by (simp add: res)
  qed
  show "roundFloat64 x < 0" if "x < 0"
  proof -
    have "y < 0" using that spos by (simp add: y_def divide_neg_pos)
    then have "y \<le> of_int (- 1)" using big by simp
    from roundHalfEven_le [OF this] have "r \<le> - 1" by (simp add: r_def)
    then have "of_int r * s < 0" using spos by (simp add: mult_neg_pos)
    then show ?thesis by (simp add: res)
  qed
qed

lemma roundFloat64_zero: "roundFloat64 0 = 0"
  by (simp add: roundFloat64_def)

lemma roundFloat64_error: "\<bar>roundFloat64 x - x\<bar> \<le> \<bar>x\<bar> / 2 ^ 53"
proof (cases "x = 0")
  case True
  then show ?thesis by (simp add: roundFloat64_zero)
next
  case False
  then show ?thesis by (rule roundFloat64_props(1))
qed

lemma roundFloat64_neg_iff: "roundFloat64 x < 0 \<longleftrightarrow> x < 0"
proof (cases "x = 0")
  case True
  then show ?thesis by (simp add: roundFloat64_zero)
next
  case False
  then show ?thesis
    using roundFloat64_props(2) [of x] roundFloat64_props(3) [of x] by (cases "0 < x") auto
qed


lemma digit_decimal: "d < 10 \<Longrightarrow> digit d \<in> set (bytes ''0123456789'')"
proof -
  assume "d < 10"
  then consider "d = 0" | "d = 1" | "d = 2" | "d = 3" | "d = 4" | "d = 5" | "d = 6" | "d = 7"
    | "d = 8" | "d = 9" by (auto simp: less_Suc_eq eval_nat_numeral)
  then show ?thesis by cases (simp_all add: digit_def bytes_def)
qed

lemma digitsNat_decimal: "digitsNat n \<noteq> [] \<and> set (digitsNat n) \<subseteq> set (bytes ''0123456789'')"
proof (induction n rule: digitsNat.induct)
  case (1 n)
  show ?case
  proof (cases "n < 10")
    case True
    then show ?thesis using digit_decimal [of n] by (subst (1 2) digitsNat.simps) simp
  next
    case False
    have "digit (n mod 10) \<in> set (bytes ''0123456789'')" by (rule digit_decimal) simp
    then show ?thesis using "1.IH" [OF False] False by (subst (1 2) digitsNat.simps) simp
  qed
qed

lemma million_exact: "float64_of_int 1000000 = 1000000"
  by (simp add: float64_of_int_def roundFloat64_def floorLog2_def pow2_def roundHalfEven_def
        bitLength.simps Let_def)

lemma quotient_error:
  fixes D :: rat
  defines "a \<equiv> roundFloat64 D"
  defines "q \<equiv> roundFloat64 (a / 1000000)"
  shows "\<bar>q - D / 1000000\<bar> \<le> \<bar>D\<bar> / 1000000 / 2 ^ 51"
proof -
  have e1: "\<bar>a - D\<bar> \<le> \<bar>D\<bar> / 2 ^ 53" unfolding a_def by (rule roundFloat64_error)
  have "\<bar>a\<bar> \<le> \<bar>D\<bar> + \<bar>a - D\<bar>" by linarith
  also have "\<dots> \<le> \<bar>D\<bar> + \<bar>D\<bar> / 2 ^ 53" using e1 by linarith
  also have "\<dots> \<le> 2 * \<bar>D\<bar>" by simp
  finally have a2: "\<bar>a\<bar> \<le> 2 * \<bar>D\<bar>" .
  have "\<bar>q - a / 1000000\<bar> \<le> \<bar>a / 1000000\<bar> / 2 ^ 53" unfolding q_def by (rule roundFloat64_error)
  also have "\<dots> = \<bar>a\<bar> / 1000000 / 2 ^ 53" by simp
  also have "\<dots> \<le> 2 * \<bar>D\<bar> / 1000000 / 2 ^ 53" using a2 by (simp add: divide_right_mono)
  finally have e2: "\<bar>q - a / 1000000\<bar> \<le> 2 * \<bar>D\<bar> / 1000000 / 2 ^ 53" .
  have "\<bar>a / 1000000 - D / 1000000\<bar> = \<bar>a - D\<bar> / 1000000"
    by (simp flip: diff_divide_distrib)
  also have "\<dots> \<le> \<bar>D\<bar> / 2 ^ 53 / 1000000" using e1 by (simp add: divide_right_mono)
  finally have e3: "\<bar>a / 1000000 - D / 1000000\<bar> \<le> \<bar>D\<bar> / 2 ^ 53 / 1000000" .
  have "\<bar>q - D / 1000000\<bar> \<le> \<bar>q - a / 1000000\<bar> + \<bar>a / 1000000 - D / 1000000\<bar>" by linarith
  also have "\<dots> \<le> 2 * \<bar>D\<bar> / 1000000 / 2 ^ 53 + \<bar>D\<bar> / 2 ^ 53 / 1000000" using e2 e3 by linarith
  also have "\<dots> \<le> \<bar>D\<bar> / 1000000 / 2 ^ 51" by simp
  finally show ?thesis .
qed


text \<open>
  Claim C7. For every duration the latency field is an optional minus sign (present
  exactly for a negative duration), a non-empty run of decimal digits, a point, exactly
  three decimal digits and the letters \<open>ms\<close>. The number shown is the count of nanoseconds
  divided by \<open>10\<^sup>6\<close>, up to the rounding to three decimals (half a thousandth) and the
  rounding of the two \<^verbatim>\<open>float64\<close> operations (a relative \<open>2\<^sup>-\<^sup>5\<^sup>1\<close>). Twelve million
  nanoseconds give \<^verbatim>\<open>12.000ms\<close> and five hundred thousand give \<^verbatim>\<open>0.500ms\<close>.
\<close>

theorem prettyDuration_format:
  "(\<exists>k. prettyDuration dur =
          (if dur < 0 then bytes ''-'' else []) @ digitsNat (k div 1000) @ bytes ''.''
            @ [digit (k div 100 mod 10), digit (k div 10 mod 10), digit (k mod 10)] @ bytes ''ms''
        \<and> digitsNat (k div 1000) \<noteq> []
        \<and> set (digitsNat (k div 1000)
                 @ [digit (k div 100 mod 10), digit (k div 10 mod 10), digit (k mod 10)])
              \<subseteq> set (bytes ''0123456789'')
        \<and> \<bar>of_nat k / 1000 - \<bar>of_int dur\<bar> / 1000000\<bar>
              \<le> (1 / 2000 + \<bar>of_int dur\<bar> / 1000000 / 2 ^ 51 :: rat))
   \<and> prettyDuration 12000000 = bytes ''12.000ms''
   \<and> prettyDuration 500000 = bytes ''0.500ms''"
proof (intro conjI)
  define D :: rat where "D = of_int dur"
  define a where "a = roundFloat64 D"
  define q where "q = roundFloat64 (a / 1000000)"
  define r where "r = roundHalfEven (\<bar>q\<bar> * 1000)"
  define k where "k = nat r"
  have ms: "float64_div (float64_of_int dur) (float64_of_int 1000000) = q"
    unfolding float64_div_def million_exact
    by (simp add: float64_of_int_def q_def a_def D_def)
  have sign: "q < 0 \<longleftrightarrow> dur < 0"
  proof -
    have "q < 0 \<longleftrightarrow> a / 1000000 < 0" unfolding q_def by (rule roundFloat64_neg_iff)
    also have "\<dots> \<longleftrightarrow> a < 0" by simp
    also have "\<dots> \<longleftrightarrow> D < 0" unfolding a_def by (rule roundFloat64_neg_iff)
    also have "\<dots> \<longleftrightarrow> dur < 0" by (simp add: D_def)
    finally show ?thesis .
  qed
  have shape: "prettyDuration dur =
      (if dur < 0 then bytes ''-'' else []) @ digitsNat (k div 1000) @ bytes ''.''
        @ [digit (k div 100 mod 10), digit (k div 10 mod 10), digit (k mod 10)] @ bytes ''ms''"
    unfolding prettyDuration_def Let_def ms formatFixed3_def
    by (simp add: sign k_def r_def)
  have "of_int 0 \<le> \<bar>q\<bar> * 1000" by simp
  from roundHalfEven_ge [OF this] have r0: "0 \<le> r" by (simp add: r_def)
  then have kr: "(of_nat k :: rat) = of_int r" by (simp add: k_def)
  have "\<bar>of_int r - \<bar>q\<bar> * 1000\<bar> \<le> 1 / 2" unfolding r_def by (rule roundHalfEven_error)
  then have e1: "\<bar>of_nat k / 1000 - \<bar>q\<bar>\<bar> \<le> 1 / 2000" unfolding kr by (simp add: field_simps)
  have "\<bar>\<bar>q\<bar> - \<bar>D / 1000000\<bar>\<bar> \<le> \<bar>q - D / 1000000\<bar>" by (rule abs_triangle_ineq3)
  also have "\<dots> \<le> \<bar>D\<bar> / 1000000 / 2 ^ 51"
    unfolding q_def a_def by (rule quotient_error)
  finally have e2: "\<bar>\<bar>q\<bar> - \<bar>D\<bar> / 1000000\<bar> \<le> \<bar>D\<bar> / 1000000 / 2 ^ 51" by simp
  have bound: "\<bar>of_nat k / 1000 - \<bar>D\<bar> / 1000000\<bar> \<le> 1 / 2000 + \<bar>D\<bar> / 1000000 / 2 ^ 51"
    using e1 e2 by linarith
  have dg: "digit (k div 100 mod 10) \<in> set (bytes ''0123456789'')"
    "digit (k div 10 mod 10) \<in> set (bytes ''0123456789'')"
    "digit (k mod 10) \<in> set (bytes ''0123456789'')"
    by (rule digit_decimal, simp)+
  show "\<exists>k. prettyDuration dur =
          (if dur < 0 then bytes ''-'' else []) @ digitsNat (k div 1000) @ bytes ''.''
            @ [digit (k div 100 mod 10), digit (k div 10 mod 10), digit (k mod 10)] @ bytes ''ms''
        \<and> digitsNat (k div 1000) \<noteq> []
        \<and> set (digitsNat (k div 1000)
                 @ [digit (k div 100 mod 10), digit (k div 10 mod 10), digit (k mod 10)])
              \<subseteq> set (bytes ''0123456789'')
        \<and> \<bar>of_nat k / 1000 - \<bar>of_int dur\<bar> / 1000000\<bar>
              \<le> (1 / 2000 + \<bar>of_int dur\<bar> / 1000000 / 2 ^ 51 :: rat)"
  proof (intro exI conjI)
    show "prettyDuration dur =
      (if dur < 0 then bytes ''-'' else []) @ digitsNat (k div 1000) @ bytes ''.''
        @ [digit (k div 100 mod 10), digit (k div 10 mod 10), digit (k mod 10)] @ bytes ''ms''"
      by (rule shape)
    show "digitsNat (k div 1000) \<noteq> []" using digitsNat_decimal by blast
    show "set (digitsNat (k div 1000)
                 @ [digit (k div 100 mod 10), digit (k div 10 mod 10), digit (k mod 10)])
              \<subseteq> set (bytes ''0123456789'')"
      using digitsNat_decimal [of "k div 1000"] dg by simp
    show "\<bar>of_nat k / 1000 - \<bar>of_int dur\<bar> / 1000000\<bar>
              \<le> (1 / 2000 + \<bar>of_int dur\<bar> / 1000000 / 2 ^ 51 :: rat)"
      using bound by (simp add: D_def)
  qed
  show "prettyDuration 12000000 = bytes ''12.000ms''" by (rule prettyDuration_12ms)
  show "prettyDuration 500000 = bytes ''0.500ms''" by (rule prettyDuration_half_ms)
qed


theorem prettyDuration_format_witness:
  "\<exists>k. prettyDuration (- 1500) =
          bytes ''-'' @ digitsNat (k div 1000) @ bytes ''.''
            @ [digit (k div 100 mod 10), digit (k div 10 mod 10), digit (k mod 10)] @ bytes ''ms''
        \<and> digitsNat (k div 1000) \<noteq> []
        \<and> set (digitsNat (k div 1000)
                 @ [digit (k div 100 mod 10), digit (k div 10 mod 10), digit (k mod 10)])
              \<subseteq> set (bytes ''0123456789'')
        \<and> \<bar>of_nat k / 1000 - \<bar>of_int (- 1500)\<bar> / 1000000\<bar>
              \<le> (1 / 2000 + \<bar>of_int (- 1500)\<bar> / 1000000 / 2 ^ 51 :: rat)"
  using prettyDuration_format [of "- 1500"] by simp

end
